theory Spec2Isabelle
  imports Complex_Main "HOL-Library.Log_Nat" "HOL-Library.Stream" "HOL-Library.Multiset"
begin

section \<open>Equation Builder (superstudent.jsx): the puzzle engine\<close>

text \<open>
  The component keeps its data in React state and computes with JavaScript numbers, strings
  and arrays. The embedding follows the source function by function:
  \<^item> a JavaScript number is a \<open>jsnum\<close>: an IEEE 754 double, written as sign and exact
    rational magnitude, with the rounding of every operation written out;
  \<^item> a string is a \<open>string\<close> whose characters are the code units below 256;
  \<^item> \<open>Math.random()\<close> reads the next element of an explicit stream of draws;
  \<^item> a \<open>throw\<close> is the \<open>Inl\<close> of a sum type, a loop that need not end takes fuel and
    returns \<open>None\<close> when the fuel is used up;
  \<^item> the React state is a record, each handler a function from state to state.
\<close>

subsection \<open>JavaScript numbers\<close>

text \<open>
  \<open>Fin s m\<close> is the finite double of magnitude \<open>m\<close> and sign bit \<open>s\<close> (\<open>True\<close> is
  negative, so \<open>Fin True 0\<close> is \<open>-0\<close>); \<open>Infty s\<close> is the infinity of that sign.
\<close>

datatype jsnum = NaN | Infty bool | Fin bool rat

definition pow2 :: "int \<Rightarrow> rat" where
  "pow2 e = (if 0 \<le> e then 2 ^ nat e else 1 / 2 ^ nat (- e))"

text \<open>\<open>flog2 q\<close> is the binary exponent of a positive rational: \<open>2^e \<le> q < 2^(e+1)\<close>.\<close>

definition flog2 :: "rat \<Rightarrow> int" where
  "flog2 q = (case quotient_of q of (a, b) \<Rightarrow>
      (let k = bitlen a - bitlen b in if pow2 k \<le> q then k else k - 1))"

definition roundHalfEven :: "rat \<Rightarrow> int" where
  "roundHalfEven x =
     (let f = \<lfloor>x\<rfloor>; d = x - of_int f
      in if d < 1 / 2 then f else if 1 / 2 < d then f + 1 else if even f then f else f + 1)"

text \<open>
  Round to nearest, ties to even, with 53 significant bits and the exponent bounded below
  by -1022 (subnormals); the exponent is not bounded above here.
\<close>

definition nearest :: "rat \<Rightarrow> rat" where
  "nearest q = (let e = max (flog2 q) (- 1022); u = pow2 (e - 52)
                in of_int (roundHalfEven (q / u)) * u)"

text \<open>The double of sign \<open>s\<close> nearest to the exact magnitude \<open>q \<ge> 0\<close>; overflow is infinity.\<close>

definition toDouble :: "bool \<Rightarrow> rat \<Rightarrow> jsnum" where
  "toDouble s q =
     (if q = 0 then Fin s 0
      else let m = nearest q in if pow2 1024 \<le> m then Infty s else Fin s m)"

definition sval :: "bool \<Rightarrow> rat \<Rightarrow> rat" where
  "sval s m = (if s then - m else m)"

definition ofRat :: "rat \<Rightarrow> jsnum" where
  "ofRat v = toDouble (v < 0) \<bar>v\<bar>"

fun jneg :: "jsnum \<Rightarrow> jsnum" where
  "jneg NaN = NaN"
| "jneg (Infty s) = Infty (\<not> s)"
| "jneg (Fin s m) = Fin (\<not> s) m"

fun jadd :: "jsnum \<Rightarrow> jsnum \<Rightarrow> jsnum" where
  "jadd NaN _ = NaN"
| "jadd _ NaN = NaN"
| "jadd (Infty s) (Infty t) = (if s = t then Infty s else NaN)"
| "jadd (Infty s) (Fin _ _) = Infty s"
| "jadd (Fin _ _) (Infty t) = Infty t"
| "jadd (Fin s a) (Fin t b) =
     (let v = sval s a + sval t b in if v = 0 then Fin (s \<and> t) 0 else ofRat v)"

definition jsub :: "jsnum \<Rightarrow> jsnum \<Rightarrow> jsnum" where
  "jsub x y = jadd x (jneg y)"

fun jmul :: "jsnum \<Rightarrow> jsnum \<Rightarrow> jsnum" where
  "jmul NaN _ = NaN"
| "jmul _ NaN = NaN"
| "jmul (Infty s) (Infty t) = Infty (s \<noteq> t)"
| "jmul (Infty s) (Fin t b) = (if b = 0 then NaN else Infty (s \<noteq> t))"
| "jmul (Fin s a) (Infty t) = (if a = 0 then NaN else Infty (s \<noteq> t))"
| "jmul (Fin s a) (Fin t b) = toDouble (s \<noteq> t) (a * b)"

fun jdiv :: "jsnum \<Rightarrow> jsnum \<Rightarrow> jsnum" where
  "jdiv NaN _ = NaN"
| "jdiv _ NaN = NaN"
| "jdiv (Infty s) (Infty t) = NaN"
| "jdiv (Infty s) (Fin t b) = Infty (s \<noteq> t)"
| "jdiv (Fin s a) (Infty t) = Fin (s \<noteq> t) 0"
| "jdiv (Fin s a) (Fin t b) =
     (if b = 0 then (if a = 0 then NaN else Infty (s \<noteq> t))
      else toDouble (s \<noteq> t) (a / b))"

text \<open>\<open>Number.isFinite\<close> on a number, \<open>Math.abs\<close>, \<open>Math.round\<close> (halves go up),
  \<open>Math.floor\<close>, and the comparisons (greater, less, strict equality) of two numbers.\<close>

fun isFiniteNum :: "jsnum \<Rightarrow> bool" where
  "isFiniteNum (Fin _ _) = True"
| "isFiniteNum _ = False"

fun jabs :: "jsnum \<Rightarrow> jsnum" where
  "jabs NaN = NaN"
| "jabs (Infty _) = Infty False"
| "jabs (Fin _ m) = Fin False m"

fun jround :: "jsnum \<Rightarrow> jsnum" where
  "jround (Fin s m) =
     (let r = \<lfloor>sval s m + 1 / 2\<rfloor> in Fin (r < 0 \<or> (r = 0 \<and> (s \<or> sval s m < 0))) (of_int \<bar>r\<bar>))"
| "jround x = x"

fun jfloor :: "jsnum \<Rightarrow> jsnum" where
  "jfloor (Fin s m) = (let r = \<lfloor>sval s m\<rfloor> in Fin (r < 0 \<or> (r = 0 \<and> s)) (of_int \<bar>r\<bar>))"
| "jfloor x = x"

fun jless :: "jsnum \<Rightarrow> jsnum \<Rightarrow> bool" where
  "jless NaN _ = False"
| "jless _ NaN = False"
| "jless (Infty s) (Infty t) = (s \<and> \<not> t)"
| "jless (Infty s) (Fin _ _) = s"
| "jless (Fin _ _) (Infty t) = (\<not> t)"
| "jless (Fin s a) (Fin t b) = (sval s a < sval t b)"

definition jgreater :: "jsnum \<Rightarrow> jsnum \<Rightarrow> bool" where
  "jgreater x y = jless y x"


text \<open>The literal \<open>1e-9\<close>.\<close>

definition eps9 :: jsnum where
  "eps9 = ofRat (1 / 10 ^ 9)"

definition ofNat :: "nat \<Rightarrow> jsnum" where
  "ofNat n = toDouble False (of_nat n)"

definition ofInt :: "int \<Rightarrow> jsnum" where
  "ofInt i = ofRat (of_int i)"


subsection \<open>Characters, the tokenizer and the parenthesis check\<close>

definition isDigit :: "char \<Rightarrow> bool" where
  "isDigit c = (c \<in> set ''0123456789'')"

definition isOpChar :: "char \<Rightarrow> bool" where
  "isOpChar c = (c \<in> set ''+-*/()'')"

text \<open>
  \<open>tokenize\<close>: \<open>expr.match(/(\d+|\+|\-|\*|\/|\(|\))/g) || []\<close>. A global match scans from the
  left; at each position it takes a greedy run of digits or one operator character, and
  moves on by one character where neither matches.
\<close>

function tokenize :: "string \<Rightarrow> string list" where
  "tokenize [] = []"
| "tokenize (c # cs) =
     (if isDigit c then (c # takeWhile isDigit cs) # tokenize (dropWhile isDigit cs)
      else if isOpChar c then [c] # tokenize cs
      else tokenize cs)"
  by pat_completeness auto
termination
  by (relation "measure length") (auto simp: less_Suc_eq_le length_dropWhile_le)

text \<open>The test \<open>/^[0-9+\-*/()]+$/\<close> of \<open>safeEval\<close> and \<open>checkEquation\<close>.\<close>

definition safeChars :: "string \<Rightarrow> bool" where
  "safeChars s = (s \<noteq> [] \<and> list_all (\<lambda>c. isDigit c \<or> isOpChar c) s)"

fun balancedLoop :: "int \<Rightarrow> string \<Rightarrow> bool" where
  "balancedLoop c [] = (c = 0)"
| "balancedLoop c (ch # s) =
     (if ch = CHR ''('' then balancedLoop (c + 1) s
      else if ch = CHR '')'' then (if c - 1 < 0 then False else balancedLoop (c - 1) s)
      else balancedLoop c s)"

definition balancedParens :: "string \<Rightarrow> bool" where
  "balancedParens s = balancedLoop 0 s"

subsection \<open>The host: what \<open>new Function\<close> does with the text it is given\<close>

text \<open>
  \<open>safeEval\<close> hands the body \<open>"use strict"; return (\<close>\<^emph>\<open>expr\<close>\<open>);\<close> to the Function constructor
  and calls the result. After the character test the text between the parentheses is made
  of digits and \<open>+ - * / ( )\<close> only, and on such text ECMAScript is small enough to write
  out: decimal literals (a leading zero is an error in strict code), the operators
  \<open>+ - * / **\<close> (unary and binary), \<open>++\<close> and \<open>--\<close>, parentheses, calls, line and block
  comments, and regular expression literals. Nothing here is assignable, so \<open>++\<close> and \<open>--\<close>
  always end in an error: a SyntaxError when the operand is not a call; when it is a call,
  the standard asks for the same early error, and engines that keep such a call for old
  pages (V8 does) throw when the call is evaluated, a TypeError since no value here is
  callable. Three things that depend on the engine are parameters, a record \<open>host\<close>: the
  approximation of a power with finite non-zero operands, the digits of a number in
  base 36, and whether a call is kept as the operand of \<open>++\<close> and \<open>--\<close>.
\<close>

datatype exn = Error string | SyntaxError | TypeError

datatype tok = TNum nat | TRegex string | TPlus | TMinus | TStar | TStarStar | TSlash
  | TLParen | TRParen | TIncr | TDecr

fun skipBlock :: "string \<Rightarrow> string option" where
  "skipBlock (c # d # cs) = (if c = CHR ''*'' \<and> d = CHR ''/'' then Some cs else skipBlock (d # cs))"
| "skipBlock _ = None"

text \<open>
  A pattern over digits and \<open>+ - * ( )\<close> is a valid regular expression when its groups
  are balanced and every quantifier \<open>*\<close>, \<open>+\<close> follows an atom.
\<close>

fun regexOK :: "nat \<Rightarrow> bool \<Rightarrow> string \<Rightarrow> bool" where
  "regexOK d atom [] = (d = 0)"
| "regexOK d atom (c # cs) =
     (if c = CHR ''('' then regexOK (d + 1) False cs
      else if c = CHR '')'' then (0 < d \<and> regexOK (d - 1) True cs)
      else if c = CHR ''*'' \<or> c = CHR ''+'' then (atom \<and> regexOK d False cs)
      else regexOK d True cs)"

definition digitVal :: "char \<Rightarrow> nat" where
  "digitVal c = of_char c - 48"

definition digitsVal :: "string \<Rightarrow> nat" where
  "digitsVal ds = foldl (\<lambda>a c. 10 * a + digitVal c) 0 ds"

definition consTok :: "tok \<Rightarrow> tok list option \<Rightarrow> tok list option" where
  "consTok t r = (case r of None \<Rightarrow> None | Some ts \<Rightarrow> Some (t # ts))"

lemma skipBlock_shorter: "skipBlock cs = Some r \<Longrightarrow> length r < length cs"
  by (induction cs rule: skipBlock.induct) (auto split: if_splits)

text \<open>
  The lexer; \<open>None\<close> is a SyntaxError. The flag says whether the previous token ended
  an operand (a literal or a closing parenthesis): there a \<open>/\<close> divides, elsewhere it
  opens a regular expression literal. After an operand \<open>++\<close> is a postfix operator and the
  operand is still ended; elsewhere it is a prefix operator. A line comment runs to the end
  of the text.
\<close>

function jsLex :: "bool \<Rightarrow> string \<Rightarrow> tok list option" where
  "jsLex p [] = Some []"
| "jsLex p (c # cs) =
     (if isDigit c then
        (if c = CHR ''0'' \<and> takeWhile isDigit cs \<noteq> [] then None
         else consTok (TNum (digitsVal (c # takeWhile isDigit cs))) (jsLex True (dropWhile isDigit cs)))
      else if c = CHR ''/'' then
        (case cs of
           [] \<Rightarrow> (if p then Some [TSlash] else None)
         | d # ds \<Rightarrow>
            if d = CHR ''/'' then Some []
            else if d = CHR ''*'' then
              (case skipBlock ds of None \<Rightarrow> None | Some rest \<Rightarrow> jsLex p rest)
            else if p then consTok TSlash (jsLex False cs)
            else
              (case dropWhile (\<lambda>x. x \<noteq> CHR ''/'') cs of
                 [] \<Rightarrow> None
               | _ # rest \<Rightarrow>
                   if \<not> regexOK 0 False (takeWhile (\<lambda>x. x \<noteq> CHR ''/'') cs) then None
                   else if (case rest of [] \<Rightarrow> False | f # _ \<Rightarrow> isDigit f) then None
                   else consTok (TRegex (takeWhile (\<lambda>x. x \<noteq> CHR ''/'') cs)) (jsLex True rest)))
      else if c = CHR ''+'' then
        (case cs of
           [] \<Rightarrow> Some [TPlus]
         | d # ds \<Rightarrow> if d = CHR ''+'' then consTok TIncr (jsLex p ds)
                     else consTok TPlus (jsLex False cs))
      else if c = CHR ''-'' then
        (case cs of
           [] \<Rightarrow> Some [TMinus]
         | d # ds \<Rightarrow> if d = CHR ''-'' then consTok TDecr (jsLex p ds)
                     else consTok TMinus (jsLex False cs))
      else if c = CHR ''*'' then
        (case cs of
           [] \<Rightarrow> Some [TStar]
         | d # ds \<Rightarrow> if d = CHR ''*'' then consTok TStarStar (jsLex False ds)
                     else consTok TStar (jsLex False cs))
      else if c = CHR ''('' then consTok TLParen (jsLex False cs)
      else if c = CHR '')'' then consTok TRParen (jsLex True cs)
      else None)"
  by pat_completeness auto
termination
proof (relation "measure (\<lambda>(p, s). length s)", goal_cases)
  case 1
  show ?case by simp
next
  case (2 p c cs)
  show ?case by (simp add: less_Suc_eq_le length_dropWhile_le)
next
  case (3 p c cs d ds rest)
  then show ?case using skipBlock_shorter [of ds rest] by simp
next
  case (4 p c cs d ds)
  show ?case by simp
next
  case (5 p c cs d ds x rest)
  have "length (dropWhile (\<lambda>x. x \<noteq> CHR ''/'') cs) \<le> length cs"
    by (rule length_dropWhile_le)
  with 5 show ?case by simp
qed simp_all


datatype binop = Add | Sub | Mul | Div | Exp

datatype ast = Lit nat | RegexLit string | Neg ast | Pos ast | Bin binop ast ast
  | Call0 ast | Call1 ast ast | Upd ast

fun isCall :: "ast \<Rightarrow> bool" where
  "isCall (Call0 f) = True"
| "isCall (Call1 f a) = True"
| "isCall _ = False"

text \<open>
  The parser follows the ECMAScript expression grammar as far as this alphabet reaches:
  AdditiveExpression, MultiplicativeExpression, ExponentiationExpression, UnaryExpression,
  UpdateExpression (\<open>Upd\<close>, read only when the operand is a call: every other operand is an
  early error for every engine), LeftHandSideExpression with its call arguments,
  PrimaryExpression. \<open>parse nt ts\<close> reads
  the nonterminal \<open>nt\<close> from the tokens \<open>ts\<close> and returns the tree and the tokens left
  (\<open>None\<close>: a SyntaxError); the three \<open>Rest\<close> nonterminals carry the operand already read. The tests on the length of
  what a call left always hold; they make the recursion well-founded by inspection.
\<close>

datatype nonterm = Additive | AdditiveRest ast | Multiplicative | MultiplicativeRest ast
  | Exponentiation | Unary | Update | LeftHandSide | CallRest ast | Primary

fun rank :: "nonterm \<Rightarrow> nat" where
  "rank Additive = 9"
| "rank (AdditiveRest _) = 8"
| "rank Multiplicative = 7"
| "rank (MultiplicativeRest _) = 6"
| "rank Exponentiation = 5"
| "rank Unary = 4"
| "rank Update = 3"
| "rank LeftHandSide = 2"
| "rank (CallRest _) = 1"
| "rank Primary = 0"

function parse :: "nonterm \<Rightarrow> tok list \<Rightarrow> (ast \<times> tok list) option" where
  "parse nt ts =
    (case nt of
      Additive \<Rightarrow>
        (case parse Multiplicative ts of
           None \<Rightarrow> None
         | Some (l, r) \<Rightarrow>
             if length r \<le> length ts then parse (AdditiveRest l) r else None)
    | AdditiveRest l \<Rightarrow>
        (case ts of
           t # ts' \<Rightarrow>
             if t = TPlus \<or> t = TMinus then
               (case parse Multiplicative ts' of
                  None \<Rightarrow> None
                | Some (x, r) \<Rightarrow>
                    if length r \<le> length ts'
                    then parse (AdditiveRest (Bin (if t = TPlus then Add else Sub) l x)) r
                    else None)
             else Some (l, ts)
         | [] \<Rightarrow> Some (l, ts))
    | Multiplicative \<Rightarrow>
        (case parse Exponentiation ts of
           None \<Rightarrow> None
         | Some (l, r) \<Rightarrow>
             if length r \<le> length ts then parse (MultiplicativeRest l) r else None)
    | MultiplicativeRest l \<Rightarrow>
        (case ts of
           t # ts' \<Rightarrow>
             if t = TStar \<or> t = TSlash then
               (case parse Exponentiation ts' of
                  None \<Rightarrow> None
                | Some (x, r) \<Rightarrow>
                    if length r \<le> length ts'
                    then parse (MultiplicativeRest (Bin (if t = TStar then Mul else Div) l x)) r
                    else None)
             else Some (l, ts)
         | [] \<Rightarrow> Some (l, ts))
    | Exponentiation \<Rightarrow>
        (if (case ts of t # _ \<Rightarrow> t = TPlus \<or> t = TMinus | [] \<Rightarrow> False) then parse Unary ts
         else
           (case parse Update ts of
              None \<Rightarrow> None
            | Some (b, r) \<Rightarrow>
                (case r of
                   t # r' \<Rightarrow>
                     if t = TStarStar then
                       (if length r' < length ts then
                          (case parse Exponentiation r' of
                             None \<Rightarrow> None
                           | Some (x, r'') \<Rightarrow> Some (Bin Exp b x, r''))
                        else None)
                     else Some (b, r)
                 | [] \<Rightarrow> Some (b, r))))
    | Unary \<Rightarrow>
        (case ts of
           t # ts' \<Rightarrow>
             if t = TPlus \<or> t = TMinus then
               (case parse Unary ts' of
                  None \<Rightarrow> None
                | Some (x, r) \<Rightarrow> Some (if t = TPlus then Pos x else Neg x, r))
             else parse Update ts
         | [] \<Rightarrow> parse Update ts)
    | Update \<Rightarrow>
        (case ts of
           t # ts' \<Rightarrow>
             if t = TIncr \<or> t = TDecr then
               (case parse Unary ts' of
                  None \<Rightarrow> None
                | Some (x, r) \<Rightarrow> if isCall x then Some (Upd x, r) else None)
             else
               (case parse LeftHandSide ts of
                  None \<Rightarrow> None
                | Some (x, r) \<Rightarrow>
                    (case r of
                       u # r' \<Rightarrow>
                         if u = TIncr \<or> u = TDecr
                         then (if isCall x then Some (Upd x, r') else None)
                         else Some (x, r)
                     | [] \<Rightarrow> Some (x, r)))
         | [] \<Rightarrow> parse LeftHandSide ts)
    | LeftHandSide \<Rightarrow>
        (case parse Primary ts of
           None \<Rightarrow> None
         | Some (f, r) \<Rightarrow>
             if length r \<le> length ts then parse (CallRest f) r else None)
    | CallRest f \<Rightarrow>
        (case ts of
           t # ts' \<Rightarrow>
             if t = TLParen then
               (case ts' of
                  u # ts'' \<Rightarrow>
                    if u = TRParen then parse (CallRest (Call0 f)) ts''
                    else
                      (case parse Additive ts' of
                         None \<Rightarrow> None
                       | Some (a, r) \<Rightarrow>
                           (case r of
                              v # r' \<Rightarrow>
                                if v = TRParen \<and> length r' < length ts'
                                then parse (CallRest (Call1 f a)) r'
                                else None
                            | [] \<Rightarrow> None))
                | [] \<Rightarrow> None)
             else Some (f, ts)
         | [] \<Rightarrow> Some (f, ts))
    | Primary \<Rightarrow>
        (case ts of
           t # ts' \<Rightarrow>
             (case t of
                TNum n \<Rightarrow> Some (Lit n, ts')
              | TRegex b \<Rightarrow> Some (RegexLit b, ts')
              | TLParen \<Rightarrow>
                  (case parse Additive ts' of
                     None \<Rightarrow> None
                   | Some (x, r) \<Rightarrow>
                       (case r of
                          v # r' \<Rightarrow> if v = TRParen then Some (x, r') else None
                        | [] \<Rightarrow> None))
              | _ \<Rightarrow> None)
         | [] \<Rightarrow> None))"
  by pat_completeness auto
termination
  by (relation "measures [\<lambda>(nt, ts). length ts, \<lambda>(nt, ts). rank nt]") auto


declare parse.simps [simp del]

subsection \<open>Values and evaluation\<close>

text \<open>
  A value is a number, a regular expression object, or a string. Strings arise only from
  \<open>+\<close> with a regular expression operand; a string is kept as its pieces, \<open>SNum x\<close>
  standing for the decimal text of the number \<open>x\<close>. Every such string contains a \<open>/\<close>,
  so its conversion to a number is \<open>NaN\<close>, as is that of a regular expression object.
\<close>

datatype spart = SText string | SNum jsnum

datatype jsval = JNum jsnum | JRegExp string | JStr "spart list"

record host =
  approxPow :: "rat \<Rightarrow> rat \<Rightarrow> jsnum"
  radix36 :: "jsnum \<Rightarrow> string"
  callTargets :: bool

fun toNumber :: "jsval \<Rightarrow> jsnum" where
  "toNumber (JNum x) = x"
| "toNumber (JRegExp _) = NaN"
| "toNumber (JStr _) = NaN"

fun toParts :: "jsval \<Rightarrow> spart list" where
  "toParts (JNum x) = [SNum x]"
| "toParts (JRegExp b) = [SText (''/'' @ b @ ''/'')]"
| "toParts (JStr ps) = ps"

definition isInt :: "rat \<Rightarrow> bool" where
  "isInt q = (q = of_int \<lfloor>q\<rfloor>)"

fun oddIntegral :: "jsnum \<Rightarrow> bool" where
  "oddIntegral (Fin s m) = (isInt m \<and> odd \<lfloor>m\<rfloor>)"
| "oddIntegral _ = False"

text \<open>\<open>Number::exponentiate(base, exponent)\<close>, step by step as the standard lists it; the
  last step is the engine's approximation.\<close>

definition jpow :: "host \<Rightarrow> jsnum \<Rightarrow> jsnum \<Rightarrow> jsnum" where
  "jpow h base exponent =
     (if exponent = NaN then NaN
      else if exponent = Fin False 0 \<or> exponent = Fin True 0 then Fin False 1
      else if base = NaN then NaN
      else if base = Infty False then
        (if jgreater exponent (Fin False 0) then Infty False else Fin False 0)
      else if base = Infty True then
        (if jgreater exponent (Fin False 0)
         then (if oddIntegral exponent then Infty True else Infty False)
         else (if oddIntegral exponent then Fin True 0 else Fin False 0))
      else if base = Fin False 0 then
        (if jgreater exponent (Fin False 0) then Fin False 0 else Infty False)
      else if base = Fin True 0 then
        (if jgreater exponent (Fin False 0)
         then (if oddIntegral exponent then Fin True 0 else Fin False 0)
         else (if oddIntegral exponent then Infty True else Infty False))
      else
        (case (base, exponent) of
           (Fin s b, Infty False) \<Rightarrow>
             (if 1 < b then Infty False else if b = 1 then NaN else Fin False 0)
         | (Fin s b, Infty True) \<Rightarrow>
             (if 1 < b then Fin False 0 else if b = 1 then NaN else Infty False)
         | (Fin s b, Fin t e) \<Rightarrow>
             (if s \<and> \<not> isInt e then NaN else approxPow h (sval s b) (sval t e))
         | _ \<Rightarrow> NaN))"

fun applyBin :: "host \<Rightarrow> binop \<Rightarrow> jsval \<Rightarrow> jsval \<Rightarrow> jsval" where
  "applyBin h Add (JNum x) (JNum y) = JNum (jadd x y)"
| "applyBin h Add u v = JStr (toParts u @ toParts v)"
| "applyBin h Sub u v = JNum (jsub (toNumber u) (toNumber v))"
| "applyBin h Mul u v = JNum (jmul (toNumber u) (toNumber v))"
| "applyBin h Div u v = JNum (jdiv (toNumber u) (toNumber v))"
| "applyBin h Exp u v = JNum (jpow h (toNumber u) (toNumber v))"

text \<open>Operands are evaluated left to right. No value here is callable, so a call throws a
  TypeError once its callee and argument are evaluated; \<open>None\<close> is that TypeError, the
  only error of an evaluation. The operand of \<open>++\<close> and \<open>--\<close> is a call, which throws
  before the operator does anything.\<close>

fun evalAst :: "host \<Rightarrow> ast \<Rightarrow> jsval option" where
  "evalAst h (Lit n) = Some (JNum (ofNat n))"
| "evalAst h (RegexLit b) = Some (JRegExp b)"
| "evalAst h (Neg e) =
     (case evalAst h e of None \<Rightarrow> None | Some v \<Rightarrow> Some (JNum (jneg (toNumber v))))"
| "evalAst h (Pos e) =
     (case evalAst h e of None \<Rightarrow> None | Some v \<Rightarrow> Some (JNum (toNumber v)))"
| "evalAst h (Bin op a b) =
     (case evalAst h a of
        None \<Rightarrow> None
      | Some u \<Rightarrow> (case evalAst h b of None \<Rightarrow> None | Some v \<Rightarrow> Some (applyBin h op u v)))"
| "evalAst h (Call0 f) = (case evalAst h f of None \<Rightarrow> None | Some _ \<Rightarrow> None)"
| "evalAst h (Call1 f a) =
     (case evalAst h f of
        None \<Rightarrow> None
      | Some _ \<Rightarrow> (case evalAst h a of None \<Rightarrow> None | Some _ \<Rightarrow> None))"
| "evalAst h (Upd e) = (case evalAst h e of None \<Rightarrow> None | Some _ \<Rightarrow> None)"

fun updateFree :: "ast \<Rightarrow> bool" where
  "updateFree (Lit n) = True"
| "updateFree (RegexLit b) = True"
| "updateFree (Neg e) = updateFree e"
| "updateFree (Pos e) = updateFree e"
| "updateFree (Bin op a b) = (updateFree a \<and> updateFree b)"
| "updateFree (Call0 f) = updateFree f"
| "updateFree (Call1 f a) = (updateFree f \<and> updateFree a)"
| "updateFree (Upd e) = False"

text \<open>
  \<open>newFunctionReturn h expr\<close> is \<open>new Function('"use strict"; return (' + expr + ');')()\<close>
  for an \<open>expr\<close> that passed the character test. The text between \<open>return\<close> and the end is
  lexed with the parentheses the body puts around \<open>expr\<close>; a line comment in \<open>expr\<close> hides
  the closing parenthesis and the semicolon, and the statement then ends with the body.
  A host that does not keep calls as operands of \<open>++\<close> and \<open>--\<close> reports them when it
  parses.
\<close>

definition newFunctionReturn :: "host \<Rightarrow> string \<Rightarrow> exn + jsval" where
  "newFunctionReturn h expr =
     (case jsLex False (''('' @ expr @ '')'') of
        None \<Rightarrow> Inl SyntaxError
      | Some ts \<Rightarrow>
          (case parse Additive ts of
             None \<Rightarrow> Inl SyntaxError
           | Some (t, rest) \<Rightarrow>
               if rest \<noteq> [] then Inl SyntaxError
               else if \<not> updateFree t \<and> \<not> callTargets h then Inl SyntaxError
               else (case evalAst h t of None \<Rightarrow> Inl TypeError | Some v \<Rightarrow> Inr v)))"

text \<open>\<open>safeEval\<close> (source lines 45 to 48).\<close>

definition safeEval :: "host \<Rightarrow> string \<Rightarrow> exn + jsval" where
  "safeEval h expr =
     (if \<not> safeChars expr then Inl (Error ''Unsafe expression'')
      else newFunctionReturn h expr)"

text \<open>
  A host to run examples on: powers with an integral exponent are rounded from the exact
  power, the digits in base 36 are those of the exact expansion, calls are kept as operands
  of \<open>++\<close> and \<open>--\<close>. The theorems below hold for every host.
\<close>

definition exactPow :: "rat \<Rightarrow> rat \<Rightarrow> jsnum" where
  "exactPow b e =
     (if isInt e then ofRat (if 0 \<le> e then b ^ nat \<lfloor>e\<rfloor> else 1 / b ^ nat (- \<lfloor>e\<rfloor>))
      else NaN)"

definition digit36 :: "nat \<Rightarrow> char" where
  "digit36 d = (if d < 10 then char_of (48 + d) else char_of (87 + d))"

fun fraction36 :: "nat \<Rightarrow> rat \<Rightarrow> string" where
  "fraction36 0 q = []"
| "fraction36 (Suc n) q =
     (if q = 0 then []
      else digit36 (nat \<lfloor>q * 36\<rfloor>) # fraction36 n (q * 36 - of_int \<lfloor>q * 36\<rfloor>))"

fun exactRadix36 :: "jsnum \<Rightarrow> string" where
  "exactRadix36 (Fin s m) =
     (if m = 0 then ''0'' else (if s then ''-'' else []) @ ''0.'' @ fraction36 11 m)"
| "exactRadix36 _ = ''NaN''"

definition refHost :: host where
  "refHost = \<lparr> approxPow = exactPow, radix36 = exactRadix36, callTargets = True \<rparr>"


subsection \<open>Randomness\<close>

text \<open>
  \<open>Math.random()\<close> returns a double in \<open>[0, 1)\<close>. The draws come from a stream of naturals
  \<open>k\<close>, read as \<open>(k mod 2^53) / 2^53\<close>: every draw is a multiple of \<open>2^-53\<close> below one, as the
  engines produce them. Sums of small integers are exact in doubles and are written in \<open>int\<close>.
\<close>

type_synonym rng = "nat stream"

definition mathRandom :: "rng \<Rightarrow> jsnum \<times> rng" where
  "mathRandom s = (Fin False (of_nat (shd s mod 2 ^ 53) / 2 ^ 53), stl s)"

fun jsToInt :: "jsnum \<Rightarrow> int" where
  "jsToInt (Fin s m) = \<lfloor>sval s m\<rfloor>"
| "jsToInt _ = 0"

text \<open>\<open>randInt\<close> (line 28): \<open>Math.floor(Math.random() * (b - a + 1)) + a\<close>. The product is
  finite for every range below \<open>2^1024\<close>.\<close>

definition randInt :: "int \<Rightarrow> int \<Rightarrow> rng \<Rightarrow> int \<times> rng" where
  "randInt a b s =
     (case mathRandom s of (r, s') \<Rightarrow> (jsToInt (jfloor (jmul r (ofInt (b - a + 1)))) + a, s'))"

text \<open>\<open>genId\<close> (line 29): \<open>Math.random().toString(36).slice(2, 9)\<close>.\<close>

definition genId :: "host \<Rightarrow> rng \<Rightarrow> string \<times> rng" where
  "genId h s = (case mathRandom s of (r, s') \<Rightarrow> (take 7 (drop 2 (radix36 h r)), s'))"

text \<open>\<open>shuffleArray\<close> (lines 31 to 38): the loop runs \<open>i\<close> from the last index down to 1 and
  swaps the entries at \<open>i\<close> and \<open>j = floor(random * (i + 1))\<close>.\<close>

fun shuffleLoop :: "nat \<Rightarrow> 'a list \<Rightarrow> rng \<Rightarrow> 'a list \<times> rng" where
  "shuffleLoop 0 newArr s = (newArr, s)"
| "shuffleLoop (Suc k) newArr s =
     (case mathRandom s of (r, s') \<Rightarrow>
        (let i = Suc k; j = nat (jsToInt (jfloor (jmul r (ofInt (int i + 1)))))
         in shuffleLoop k (newArr[i := newArr ! j, j := newArr ! i]) s'))"

definition shuffleArray :: "'a list \<Rightarrow> rng \<Rightarrow> 'a list \<times> rng" where
  "shuffleArray arr s = shuffleLoop (length arr - 1) arr s"

subsection \<open>The React state\<close>

text \<open>
  An entry of the equation is \<open>{id, token}\<close>; an entry of the pool adds the flag \<open>used\<close>.
  \<open>targetValue\<close> starts as \<open>null\<close> (\<open>None\<close>). The timer is kept as the seconds last handed
  to \<open>startTimer\<close>.
\<close>

record tokenRef =
  tokId :: string
  token :: string

record poolToken = tokenRef +
  used :: bool

datatype popup = Welcome | TimeUp | Correct | WrongAnswer

record wrongAnswer =
  waExpr :: string
  waResult :: "jsval option"
  waMessage :: string

record question =
  qOriginalExpr :: string
  qOriginalTokens :: "string list"
  qTargetValue :: jsnum
  qNumCount :: int

record state =
  score :: int
  timeLeft :: int
  currentLevel :: int
  targetValue :: "jsnum option"
  originalExpr :: string
  originalTokens :: "string list"
  availableTokens :: "poolToken list"
  equationTokens :: "tokenRef list"
  solutionVisible :: bool
  activePopup :: "popup option"
  wrongAnswerData :: wrongAnswer
  hint :: "string option"
  currentQuestion :: "question option"

subsection \<open>The equation builder (lines 221 to 246)\<close>

text \<open>
  \<open>addToEquation(index)\<close>: reading \<open>.used\<close> of \<open>availableTokens[index]\<close> throws when the
  index is out of range. The assignment \<open>newAvailable[index].used = true\<close> writes the object
  that the old and the new array share; nothing else refers to it.
\<close>

definition addToEquation :: "nat \<Rightarrow> state \<Rightarrow> exn + state" where
  "addToEquation index st =
     (if length (availableTokens st) \<le> index then Inl TypeError
      else let tk = availableTokens st ! index in
        if used tk then Inr st
        else Inr (st\<lparr> availableTokens := (availableTokens st)[index := tk\<lparr>used := True\<rparr>],
                       equationTokens := equationTokens st @ [\<lparr>tokId = tokId tk, token = token tk\<rparr>] \<rparr>))"

text \<open>
  \<open>removeFromEquation(index)\<close>: \<open>splice(index, 1)\<close> drops the entry, and every pool entry
  with the removed entry's id is marked unused. Out of range \<open>removed\<close> is undefined and
  \<open>removed.id\<close> throws in the first call of the \<open>map\<close> callback, after the equation was set
  to an equal copy; on an empty pool the callback never runs.
\<close>

definition removeFromEquation :: "nat \<Rightarrow> state \<Rightarrow> exn + state" where
  "removeFromEquation index st =
     (if length (equationTokens st) \<le> index then
        (if availableTokens st = [] then Inr st else Inl TypeError)
      else let removed = equationTokens st ! index in
        Inr (st\<lparr> equationTokens := take index (equationTokens st) @ drop (Suc index) (equationTokens st),
                  availableTokens :=
                    map (\<lambda>t. if tokId t = tokId removed then t\<lparr>used := False\<rparr> else t)
                      (availableTokens st) \<rparr>))"

definition resetEquation :: "state \<Rightarrow> state" where
  "resetEquation st =
     st\<lparr> equationTokens := [],
         availableTokens := map (\<lambda>t. t\<lparr>used := False\<rparr>) (availableTokens st),
         solutionVisible := False,
         hint := None \<rparr>"

text \<open>A click is one of the three operations; a handler that throws leaves the state as it
  was.\<close>

datatype click = Place nat | Unplace nat | Reset

fun perform :: "click \<Rightarrow> state \<Rightarrow> state" where
  "perform (Place i) st = (case addToEquation i st of Inl _ \<Rightarrow> st | Inr st' \<Rightarrow> st')"
| "perform (Unplace j) st = (case removeFromEquation j st of Inl _ \<Rightarrow> st | Inr st' \<Rightarrow> st')"
| "perform Reset st = resetEquation st"

definition clicks :: "click list \<Rightarrow> state \<Rightarrow> state" where
  "clicks cs st = foldl (\<lambda>s c. perform c s) st cs"

subsection \<open>\<open>revealSolution\<close> (lines 287 to 304)\<close>

fun findIndex :: "('a \<Rightarrow> bool) \<Rightarrow> 'a list \<Rightarrow> nat option" where
  "findIndex P [] = None"
| "findIndex P (x # xs) = (if P x then Some 0 else map_option Suc (findIndex P xs))"

text \<open>The body of \<open>originalTokens.forEach\<close>, with the two arrays it updates.\<close>

fun revealLoop :: "host \<Rightarrow> string list \<Rightarrow> poolToken list \<Rightarrow> tokenRef list \<Rightarrow> rng
    \<Rightarrow> (poolToken list \<times> tokenRef list) \<times> rng" where
  "revealLoop h [] newAvailable newEquation s = ((newAvailable, newEquation), s)"
| "revealLoop h (tok # toks) newAvailable newEquation s =
     (case findIndex (\<lambda>t. \<not> used t \<and> token t = tok) newAvailable of
        Some idx \<Rightarrow>
          revealLoop h toks
            (newAvailable[idx := (newAvailable ! idx)\<lparr>used := True\<rparr>])
            (newEquation @ [\<lparr>tokId = tokId (newAvailable ! idx), token = token (newAvailable ! idx)\<rparr>])
            s
      | None \<Rightarrow>
          (case genId h s of (i, s') \<Rightarrow>
             revealLoop h toks newAvailable (newEquation @ [\<lparr>tokId = i, token = tok\<rparr>]) s'))"

definition revealSolution :: "host \<Rightarrow> state \<Rightarrow> rng \<Rightarrow> state \<times> rng" where
  "revealSolution h st s =
     (case revealLoop h (originalTokens st)
             (map (\<lambda>t. t\<lparr>used := False\<rparr>) (availableTokens st)) [] s of
        ((newAvailable, newEquation), s') \<Rightarrow>
          (st\<lparr> availableTokens := newAvailable,
               equationTokens := newEquation,
               solutionVisible := True \<rparr>, s'))"


subsection \<open>The checker: \<open>checkEquation\<close> (lines 248 to 285)\<close>




subsection \<open>Difficulty (lines 62 to 82)\<close>

definition OPS :: "string list" where
  "OPS = [''+'', ''-'', ''*'', ''/'']"

definition ATTEMPT_LIMIT :: nat where
  "ATTEMPT_LIMIT = 400"

text \<open>The weights are the doubles nearest to the decimal literals, in the order of the keys.\<close>

definition getOperatorWeights :: "int \<Rightarrow> (string \<times> jsnum) list" where
  "getOperatorWeights level =
     (if level \<le> 3 then
        [(''+'', ofRat (5 / 10)), (''-'', ofRat (3 / 10)), (''*'', ofRat (15 / 100)), (''/'', ofRat (5 / 100))]
      else if level \<le> 6 then
        [(''+'', ofRat (3 / 10)), (''-'', ofRat (2 / 10)), (''*'', ofRat (35 / 100)), (''/'', ofRat (15 / 100))]
      else
        [(''+'', ofRat (2 / 10)), (''-'', ofRat (15 / 100)), (''*'', ofRat (3 / 10)), (''/'', ofRat (35 / 100))])"

fun jle :: "jsnum \<Rightarrow> jsnum \<Rightarrow> bool" where
  "jle NaN _ = False"
| "jle _ NaN = False"
| "jle (Infty s) (Infty t) = (s \<or> \<not> t)"
| "jle (Infty s) (Fin _ _) = s"
| "jle (Fin _ _) (Infty t) = (\<not> t)"
| "jle (Fin s a) (Fin t b) = (sval s a \<le> sval t b)"

fun weightedLoop :: "jsnum \<Rightarrow> jsnum \<Rightarrow> (string \<times> jsnum) list \<Rightarrow> string" where
  "weightedLoop random cumulative [] = ''+''"
| "weightedLoop random cumulative ((op, weight) # ws) =
     (if jle random (jadd cumulative weight) then op
      else weightedLoop random (jadd cumulative weight) ws)"

definition getWeightedRandomOperator :: "(string \<times> jsnum) list \<Rightarrow> rng \<Rightarrow> string \<times> rng" where
  "getWeightedRandomOperator weights s =
     (case mathRandom s of (random, s') \<Rightarrow> (weightedLoop random (Fin False 0) weights, s'))"

definition getTimerDurationForLevel :: "int \<Rightarrow> int" where
  "getTimerDurationForLevel level =
     (let baseTime = 60; timeBonus = max 0 (10 - (level - 1) * 2)
      in max 30 (baseTime + timeBonus))"

subsection \<open>The expression generator: \<open>buildRandomExpr\<close> (lines 122 to 148)\<close>

record item =
  expr :: string
  itemValue :: jsnum

definition digitChar :: "nat \<Rightarrow> char" where
  "digitChar d = char_of (48 + d)"

function decimal :: "nat \<Rightarrow> string" where
  "decimal n = (if n < 10 then [digitChar n] else decimal (n div 10) @ [digitChar (n mod 10)])"
  by pat_completeness auto
termination
  by (relation "measure id") auto

declare decimal.simps [simp del]

text \<open>\<open>String(n)\<close> for an integer below \<open>10^21\<close> in magnitude (the generator passes 1 to 9).\<close>

definition jsString :: "int \<Rightarrow> string" where
  "jsString n = (if n < 0 then ''-'' @ decimal (nat (- n)) else decimal (nat n))"

fun numberIsFinite :: "jsval \<Rightarrow> bool" where
  "numberIsFinite (JNum x) = isFiniteNum x"
| "numberIsFinite _ = False"

text \<open>\<open>while (j === i) j = randInt(0, items.length - 1)\<close>, with fuel.\<close>

fun redraw :: "nat \<Rightarrow> int \<Rightarrow> int \<Rightarrow> int \<Rightarrow> rng \<Rightarrow> (int \<times> rng) option" where
  "redraw 0 i j hi s = (if j = i then None else Some (j, s))"
| "redraw (Suc f) i j hi s =
     (if j = i then (case randInt 0 hi s of (j', s') \<Rightarrow> redraw f i j' hi s') else Some (j, s))"

definition removeAt :: "nat \<Rightarrow> 'a list \<Rightarrow> 'a list" where
  "removeAt idx xs = take idx xs @ drop (Suc idx) xs"

text \<open>The first two statements of the \<open>try\<close> block.\<close>

definition evalFinite :: "host \<Rightarrow> string \<Rightarrow> exn + jsnum" where
  "evalFinite h newExpr =
     (case safeEval h newExpr of
        Inl e \<Rightarrow> Inl e
      | Inr newVal \<Rightarrow>
          if \<not> numberIsFinite newVal then Inl (Error ''badVal'') else Inr (toNumber newVal))"

definition nextOp :: "string list \<Rightarrow> rng \<Rightarrow> string \<times> string list \<times> rng" where
  "nextOp opsCopy s =
     (case opsCopy of
        op # rest \<Rightarrow> (op, rest, s)
      | [] \<Rightarrow>
          (case mathRandom s of (r, s') \<Rightarrow>
             (OPS ! nat (jsToInt (jfloor (jmul r (ofInt (int (length OPS)))))), [], s')))"

text \<open>
  One pass through the body of the outer loop: the flag says whether the pass reduced two
  items to one (\<open>True\<close>) or put the operator back (\<open>False\<close>). \<open>None\<close>: the inner loop used up
  the fuel.
\<close>

definition reduceStep :: "host \<Rightarrow> nat \<Rightarrow> item list \<Rightarrow> string list \<Rightarrow> rng
    \<Rightarrow> (bool \<times> item list \<times> string list \<times> rng) option" where
  "reduceStep h fuel items opsCopy s =
     (case randInt 0 (int (length items) - 1) s of (i, s1) \<Rightarrow>
      case randInt 0 (int (length items) - 1) s1 of (j0, s2) \<Rightarrow>
      case redraw fuel i j0 (int (length items) - 1) s2 of
        None \<Rightarrow> None
      | Some (j, s3) \<Rightarrow>
         (case nextOp opsCopy s3 of (op, rest, s4) \<Rightarrow>
          case mathRandom s4 of (r, s5) \<Rightarrow>
            (let leftFirst = jless r (Fin False (1 / 2));
                 a = (if leftFirst then items ! nat i else items ! nat j);
                 b = (if leftFirst then items ! nat j else items ! nat i);
                 newExpr = ''('' @ expr a @ op @ expr b @ '')''
             in case evalFinite h newExpr of
                  Inr newVal \<Rightarrow>
                    (case shuffleArray
                            (removeAt (nat (min i j)) (removeAt (nat (max i j)) items)
                               @ [\<lparr>expr = newExpr, itemValue = newVal\<rparr>]) s5 of
                       (items', s6) \<Rightarrow> Some (True, items', rest, s6))
                | Inl e \<Rightarrow>
                    (case shuffleArray items s5 of
                       (items', s6) \<Rightarrow> Some (False, items', op # rest, s6)))))"

definition firstExpr :: "item list \<Rightarrow> exn + string" where
  "firstExpr items = (case items of [] \<Rightarrow> Inl TypeError | it # _ \<Rightarrow> Inr (expr it))"

fun buildLoop :: "host \<Rightarrow> nat \<Rightarrow> item list \<Rightarrow> string list \<Rightarrow> rng
    \<Rightarrow> ((exn + string) \<times> rng) option" where
  "buildLoop h 0 items opsCopy s =
     (if 1 < length items then None else Some (firstExpr items, s))"
| "buildLoop h (Suc f) items opsCopy s =
     (if 1 < length items then
        (case reduceStep h f items opsCopy s of
           None \<Rightarrow> None
         | Some (ok, items', ops', s') \<Rightarrow> buildLoop h f items' ops' s')
      else Some (firstExpr items, s))"

definition buildRandomExpr :: "host \<Rightarrow> nat \<Rightarrow> int list \<Rightarrow> string list \<Rightarrow> rng
    \<Rightarrow> ((exn + string) \<times> rng) option" where
  "buildRandomExpr h fuel numbers ops s =
     buildLoop h fuel (map (\<lambda>n. \<lparr>expr = jsString n, itemValue = ofInt n\<rparr>) numbers) ops s"



subsection \<open>The round generator: \<open>newRound\<close> (lines 165 to 219)\<close>

fun drawNumbers :: "nat \<Rightarrow> int \<Rightarrow> rng \<Rightarrow> int list \<times> rng" where
  "drawNumbers 0 maxNumber s = ([], s)"
| "drawNumbers (Suc n) maxNumber s =
     (case randInt 1 maxNumber s of (x, s') \<Rightarrow>
      case drawNumbers n maxNumber s' of (xs, s'') \<Rightarrow> (x # xs, s''))"

fun drawOps :: "nat \<Rightarrow> (string \<times> jsnum) list \<Rightarrow> rng \<Rightarrow> string list \<times> rng" where
  "drawOps 0 opWeights s = ([], s)"
| "drawOps (Suc n) opWeights s =
     (case getWeightedRandomOperator opWeights s of (x, s') \<Rightarrow>
      case drawOps n opWeights s' of (xs, s'') \<Rightarrow> (x # xs, s''))"

text \<open>\<open>tokens.map(t => ({ id: genId(), token: t, used: false }))\<close>\<close>

fun freshTokens :: "host \<Rightarrow> string list \<Rightarrow> rng \<Rightarrow> poolToken list \<times> rng" where
  "freshTokens h [] s = ([], s)"
| "freshTokens h (t # ts) s =
     (case genId h s of (i, s') \<Rightarrow>
      case freshTokens h ts s' of (xs, s'') \<Rightarrow> (\<lparr>tokId = i, token = t, used = False\<rparr> # xs, s''))"

text \<open>The tests of the \<open>try\<close> block: the rounded value when the expression is accepted.\<close>

definition acceptValue :: "host \<Rightarrow> string \<Rightarrow> jsnum option" where
  "acceptValue h e =
     (case safeEval h e of
        Inl _ \<Rightarrow> None
      | Inr val \<Rightarrow>
          if \<not> numberIsFinite val then None
          else if jgreater (jabs (jsub (toNumber val) (jround (toNumber val)))) eps9
          then None
          else if jgreater (jabs (jround (toNumber val))) (ofInt 1000) then None
          else Some (jround (toNumber val)))"

definition fallbackExpr :: string where
  "fallbackExpr = ''(3+4)*2''"

definition fallbackTarget :: jsnum where
  "fallbackTarget = ofInt 14"

text \<open>One attempt: the numbers, the operators and the expression built from them.\<close>

definition attempt :: "host \<Rightarrow> nat \<Rightarrow> int \<Rightarrow> int \<Rightarrow> rng \<Rightarrow> ((exn + string) \<times> rng) option" where
  "attempt h fuel level cnt s =
     (case drawNumbers (nat cnt) (min 9 (3 + level div 2)) s of (numbers, s1) \<Rightarrow>
      case drawOps (nat (cnt - 1)) (getOperatorWeights level) s1 of (ops, s2) \<Rightarrow>
        buildRandomExpr h fuel numbers ops s2)"

text \<open>
  The retry loop. \<open>buildRandomExpr\<close> is called outside the \<open>try\<close>, so what it throws leaves
  \<open>newRound\<close>; the fallback does not set \<open>currentQuestionRef\<close>.
\<close>

function roundLoop :: "host \<Rightarrow> nat \<Rightarrow> nat \<Rightarrow> int \<Rightarrow> int \<Rightarrow> state \<Rightarrow> rng
    \<Rightarrow> ((exn + state) \<times> rng) option" where
  "roundLoop h fuel tries level cnt st s =
     (if tries < ATTEMPT_LIMIT then
        (case attempt h fuel level cnt s of
           None \<Rightarrow> None
         | Some (Inl e, s3) \<Rightarrow> Some (Inl e, s3)
         | Some (Inr e, s3) \<Rightarrow>
             (case acceptValue h e of
                None \<Rightarrow> roundLoop h fuel (tries + 1) level cnt st s3
              | Some rounded \<Rightarrow>
                  (case freshTokens h (tokenize e) s3 of (available, s4) \<Rightarrow>
                   case shuffleArray available s4 of (shuffled, s5) \<Rightarrow>
                     Some (Inr (st\<lparr> originalExpr := e,
                                     originalTokens := tokenize e,
                                     targetValue := Some rounded,
                                     availableTokens := shuffled,
                                     currentQuestion := Some
                                       \<lparr> qOriginalExpr = e, qOriginalTokens = tokenize e,
                                         qTargetValue = rounded, qNumCount = cnt \<rparr> \<rparr>), s5))))
      else
        (case freshTokens h (tokenize fallbackExpr) s of (available, s4) \<Rightarrow>
         case shuffleArray available s4 of (shuffled, s5) \<Rightarrow>
           Some (Inr (st\<lparr> originalExpr := fallbackExpr,
                           originalTokens := tokenize fallbackExpr,
                           targetValue := Some fallbackTarget,
                           availableTokens := shuffled \<rparr>), s5)))"
  by pat_completeness auto
termination
  by (relation "measure (\<lambda>(h, fuel, tries, level, cnt, st, s). ATTEMPT_LIMIT - tries)") auto

declare roundLoop.simps [simp del]

text \<open>\<open>numCount || Math.min(3 + Math.floor((level - 1) / 3), 6)\<close>: \<open>null\<close> and 0 give the
  default. Every caller passes no argument.\<close>

definition tokenCount :: "int option \<Rightarrow> int \<Rightarrow> int" where
  "tokenCount numCount level =
     (case numCount of
        Some n \<Rightarrow> if n \<noteq> 0 then n else min (3 + (level - 1) div 3) 6
      | None \<Rightarrow> min (3 + (level - 1) div 3) 6)"

definition newRound :: "host \<Rightarrow> nat \<Rightarrow> int option \<Rightarrow> state \<Rightarrow> rng
    \<Rightarrow> ((exn + state) \<times> rng) option" where
  "newRound h fuel numCount st s =
     (let level = currentLevel st;
          cnt = tokenCount numCount level;
          timerDuration = getTimerDurationForLevel level
      in roundLoop h fuel 0 level cnt
           (st\<lparr> timeLeft := timerDuration, equationTokens := [], solutionVisible := False,
                hint := None, activePopup := None \<rparr>) s)"

text \<open>The stream after \<open>n\<close> attempts in a row that each built an expression and saw it
  rejected; \<open>None\<close> when one of them did not.\<close>

fun rejected :: "host \<Rightarrow> nat \<Rightarrow> int \<Rightarrow> int \<Rightarrow> nat \<Rightarrow> rng \<Rightarrow> rng option" where
  "rejected h fuel level cnt 0 s = Some s"
| "rejected h fuel level cnt (Suc n) s =
     (case attempt h fuel level cnt s of
        Some (Inr e, s') \<Rightarrow>
          (if acceptValue h e = None then rejected h fuel level cnt n s' else None)
      | _ \<Rightarrow> None)"


text \<open>The two states the retry loop can leave, and the pool it builds for an expression
  (the ids, then the shuffle).\<close>

definition acceptedState :: "state \<Rightarrow> string \<Rightarrow> jsnum \<Rightarrow> int \<Rightarrow> poolToken list \<Rightarrow> state" where
  "acceptedState st e v cnt p =
     st\<lparr> originalExpr := e, originalTokens := tokenize e, targetValue := Some v,
         availableTokens := p,
         currentQuestion := Some \<lparr> qOriginalExpr = e, qOriginalTokens = tokenize e,
                                    qTargetValue = v, qNumCount = cnt \<rparr> \<rparr>"

definition fallbackState :: "state \<Rightarrow> poolToken list \<Rightarrow> state" where
  "fallbackState st p =
     st\<lparr> originalExpr := fallbackExpr, originalTokens := tokenize fallbackExpr,
         targetValue := Some fallbackTarget, availableTokens := p \<rparr>"

definition poolFor :: "host \<Rightarrow> string \<Rightarrow> rng \<Rightarrow> poolToken list \<times> rng" where
  "poolFor h e s = (case freshTokens h (tokenize e) s of (available, s4) \<Rightarrow> shuffleArray available s4)"

text \<open>The state a mounted component starts from (lines 10 to 22).\<close>

definition initialState :: state where
  "initialState =
     \<lparr> score = 0, timeLeft = 60, currentLevel = 1, targetValue = None, originalExpr = [],
       originalTokens = [], availableTokens = [], equationTokens = [], solutionVisible = False,
       activePopup = Some Welcome,
       wrongAnswerData = \<lparr>waExpr = [], waResult = None, waMessage = []\<rparr>,
       hint = None, currentQuestion = None \<rparr>"

section \<open>Facts about the number model\<close>

lemma pow2_powi: "pow2 e = 2 powi e"
  by (simp add: pow2_def power_int_def inverse_eq_divide power_divide)

text \<open>The same power computed on integers, for evaluation.\<close>

lemma pow2_code [code]:
  "pow2 e = (if 0 \<le> e then of_int (2 ^ nat e) else 1 / of_int (2 ^ nat (- e)))"
  by (simp add: pow2_def)

lemma pow2_pos: "0 < pow2 e"
  by (simp add: pow2_powi zero_less_power_int)

lemma pow2_add: "pow2 (a + b) = pow2 a * pow2 b"
  by (simp add: pow2_powi power_int_add)

lemma pow2_mono: "a \<le> b \<Longrightarrow> pow2 a \<le> pow2 b"
  by (simp add: pow2_powi power_int_increasing)

lemma pow2_strict_mono: "a < b \<Longrightarrow> pow2 a < pow2 b"
  by (simp add: pow2_powi power_int_strict_increasing)

lemma pow2_nat: "pow2 (int n) = 2 ^ n"
  by (simp add: pow2_def)

lemma pow2_Suc: "pow2 (e + 1) = 2 * pow2 e"
proof -
  have "pow2 1 = 2" by (simp add: pow2_def)
  then show ?thesis using pow2_add [of e 1] by simp
qed

lemma bitlen_pow2_bounds:
  assumes "0 < a"
  shows "pow2 (bitlen a - 1) \<le> of_int a" and "of_int a < pow2 (bitlen a)"
proof -
  from bitlen_bounds [OF assms]
  have lo: "2 ^ nat (bitlen a - 1) \<le> a" and hi: "a < 2 ^ nat (bitlen a)" by auto
  have pos: "1 \<le> bitlen a" using assms by (auto simp: bitlen_alt_def)
  have "pow2 (bitlen a - 1) = of_int (2 ^ nat (bitlen a - 1))"
    using pos by (simp add: pow2_def)
  also have "\<dots> \<le> of_int a" using lo by (simp only: of_int_le_iff)
  finally show "pow2 (bitlen a - 1) \<le> of_int a" .
  have "(of_int a :: rat) < of_int (2 ^ nat (bitlen a))" using hi by (simp only: of_int_less_iff)
  also have "\<dots> = pow2 (bitlen a)" using pos by (simp add: pow2_def)
  finally show "of_int a < pow2 (bitlen a)" .
qed

lemma flog2_bounds:
  assumes "0 < q"
  shows "pow2 (flog2 q) \<le> q \<and> q < pow2 (flog2 q + 1)"
proof -
  obtain a b where ab: "quotient_of q = (a, b)" by (cases "quotient_of q")
  have b: "0 < b" using ab by (rule quotient_of_denom_pos)
  have q: "q = of_int a / of_int b" using ab by (rule quotient_of_div)
  have a: "0 < a" using assms b q by (simp add: zero_less_divide_iff)
  let ?k = "bitlen a - bitlen b"
  note A = bitlen_pow2_bounds [OF a] and B = bitlen_pow2_bounds [OF b]
  have bpos: "(0::rat) < of_int b" using b by simp
  have lo: "pow2 (?k - 1) < q"
  proof -
    have "pow2 (?k - 1) * of_int b < pow2 (?k - 1) * pow2 (bitlen b)"
      using B(2) pow2_pos [of "?k - 1"] by simp
    also have "\<dots> = pow2 (bitlen a - 1)" by (simp add: pow2_add [symmetric])
    also have "\<dots> \<le> of_int a" by (rule A(1))
    finally show ?thesis using bpos by (simp add: q pos_less_divide_eq)
  qed
  have hi: "q < pow2 (?k + 1)"
  proof -
    have "of_int a < pow2 (bitlen a)" by (rule A(2))
    also have "\<dots> = pow2 (?k + 1) * pow2 (bitlen b - 1)" by (simp add: pow2_add [symmetric])
    also have "\<dots> \<le> pow2 (?k + 1) * of_int b"
      using B(1) pow2_pos [of "?k + 1"] by simp
    finally show ?thesis using bpos by (simp add: q pos_divide_less_eq)
  qed
  show ?thesis
  proof (cases "pow2 ?k \<le> q")
    case True
    then have "flog2 q = ?k" by (simp add: flog2_def ab)
    with True hi show ?thesis by simp
  next
    case False
    then have "flog2 q = ?k - 1" by (simp add: flog2_def ab)
    with False lo show ?thesis by simp
  qed
qed

lemma flog2_unique:
  assumes "0 < q" "pow2 e \<le> q" "q < pow2 (e + 1)"
  shows "flog2 q = e"
proof -
  from flog2_bounds [OF assms(1)]
  have lo: "pow2 (flog2 q) \<le> q" and hi: "q < pow2 (flog2 q + 1)" by auto
  have "\<not> flog2 q < e"
  proof
    assume "flog2 q < e"
    then have "pow2 (flog2 q + 1) \<le> pow2 e" by (intro pow2_mono) simp
    with hi assms(2) show False by simp
  qed
  moreover have "\<not> e < flog2 q"
  proof
    assume "e < flog2 q"
    then have "pow2 (e + 1) \<le> pow2 (flog2 q)" by (intro pow2_mono) simp
    with lo assms(3) show False by simp
  qed
  ultimately show ?thesis by simp
qed

lemma roundHalfEven_int: "roundHalfEven (of_int n) = n"
  by (simp add: roundHalfEven_def)

lemma roundHalfEven_nonneg: "0 \<le> x \<Longrightarrow> 0 \<le> roundHalfEven x"
  by (auto simp: roundHalfEven_def Let_def)

lemma roundHalfEven_below:
  assumes "x < of_int K - 1 / 2"
  shows "roundHalfEven x \<le> K - 1"
proof -
  have "x < of_int K" using assms by simp
  then have "\<lfloor>x\<rfloor> < K" by (simp only: floor_less_iff)
  then have f: "\<lfloor>x\<rfloor> \<le> K - 1" by simp
  show ?thesis
  proof (cases "\<lfloor>x\<rfloor> = K - 1")
    case True
    then have "x - of_int \<lfloor>x\<rfloor> < 1 / 2" using assms by simp
    then show ?thesis using True by (simp add: roundHalfEven_def Let_def)
  next
    case False
    with f have "\<lfloor>x\<rfloor> + 1 \<le> K - 1" by simp
    then show ?thesis by (auto simp: roundHalfEven_def Let_def)
  qed
qed

lemma nearest_exact:
  assumes n: "0 < n" "n < 2 ^ 53" and k: "- 1074 \<le> k"
  shows "nearest (of_int n * pow2 k) = of_int n * pow2 k"
proof -
  let ?q = "of_int n * pow2 k :: rat"
  have qpos: "0 < ?q" using n(1) pow2_pos [of k] by simp
  have bl: "bitlen n \<le> 53"
  proof (rule ccontr)
    assume "\<not> bitlen n \<le> 53"
    then have "54 \<le> bitlen n" by simp
    then have "pow2 53 \<le> pow2 (bitlen n - 1)" by (intro pow2_mono) simp
    also have "\<dots> \<le> of_int n" using bitlen_pow2_bounds(1) [OF n(1)] .
    finally have "(2::rat) ^ 53 \<le> of_int n" using pow2_nat [of 53] by simp
    then have "(of_int (2 ^ 53) :: rat) \<le> of_int n" by simp
    then have "(2::int) ^ 53 \<le> n" by (simp only: of_int_le_iff)
    with n(2) show False by simp
  qed
  have e: "flog2 ?q = bitlen n - 1 + k"
  proof (rule flog2_unique [OF qpos])
    show "pow2 (bitlen n - 1 + k) \<le> ?q"
      using bitlen_pow2_bounds(1) [OF n(1)] pow2_pos [of k] by (simp add: pow2_add)
    have "?q < pow2 (bitlen n) * pow2 k"
      using bitlen_pow2_bounds(2) [OF n(1)] pow2_pos [of k] by simp
    then show "?q < pow2 (bitlen n - 1 + k + 1)" by (simp add: pow2_add [symmetric])
  qed
  define e' where "e' = max (flog2 ?q) (- 1022)"
  have d: "0 \<le> k - (e' - 52)" using bl k by (auto simp: e'_def e max_def)
  have "?q / pow2 (e' - 52) = of_int n * pow2 (k - (e' - 52))"
  proof -
    have "pow2 k = pow2 (k - (e' - 52)) * pow2 (e' - 52)" by (simp add: pow2_add [symmetric])
    then show ?thesis using pow2_pos [of "e' - 52"] by simp
  qed
  also have "\<dots> = of_int (n * 2 ^ nat (k - (e' - 52)))" using d by (simp add: pow2_def)
  finally have "roundHalfEven (?q / pow2 (e' - 52)) = n * 2 ^ nat (k - (e' - 52))"
    by (simp only: roundHalfEven_int)
  then have "nearest ?q = of_int (n * 2 ^ nat (k - (e' - 52))) * pow2 (e' - 52)"
    by (simp add: nearest_def Let_def e'_def)
  also have "\<dots> = of_int n * (pow2 (k - (e' - 52)) * pow2 (e' - 52))" using d by (simp add: pow2_def)
  also have "\<dots> = ?q" by (simp add: pow2_add [symmetric])
  finally show ?thesis .
qed

lemma nearest_nonneg: "0 \<le> q \<Longrightarrow> 0 \<le> nearest q"
  using pow2_pos by (simp add: nearest_def Let_def roundHalfEven_nonneg less_imp_le)

lemma toDouble_int:
  assumes "0 \<le> n" "n < 2 ^ 53"
  shows "toDouble s (of_int n) = Fin s (of_int n)"
proof (cases "n = 0")
  case True
  then show ?thesis by (simp add: toDouble_def)
next
  case False
  with assms have n: "0 < n" by simp
  have ex: "nearest (of_int n) = of_int n"
    using nearest_exact [OF n assms(2), of 0] by (simp add: pow2_def)
  have "(of_int n :: rat) < of_int (2 ^ 53)" using assms(2) by (simp only: of_int_less_iff)
  also have "\<dots> \<le> pow2 1024" by (simp add: pow2_def)
  finally have "\<not> pow2 1024 \<le> (of_int n :: rat)" by simp
  then show ?thesis using n by (simp add: toDouble_def ex)
qed

lemma ofInt_small: "0 \<le> n \<Longrightarrow> n < 2 ^ 53 \<Longrightarrow> ofInt n = Fin False (of_int n)"
  using toDouble_int [of n False] by (simp add: ofInt_def ofRat_def)

lemma ofNat_small: "n < 2 ^ 53 \<Longrightarrow> ofNat n = Fin False (of_nat n)"
  using toDouble_int [of "int n" False] by (simp add: ofNat_def)

text \<open>The product of a draw below one and a positive integer rounds to less than the integer.\<close>

lemma nearest_below:
  assumes k: "0 < k" "k < 2 ^ 53" and q: "0 < q" "q \<le> of_int k - of_int k / 2 ^ 53"
    and small: "pow2 (- 1022) \<le> q"
  shows "nearest q < of_int k"
proof -
  define e where "e = flog2 q"
  have lo: "pow2 e \<le> q" and hi: "q < pow2 (e + 1)"
    using flog2_bounds [OF q(1)] by (simp_all add: e_def)
  have "0 < (of_int k :: rat) / 2 ^ 53" using k(1) by simp
  with q(2) have qk: "q < of_int k" by linarith
  have e1022: "- 1022 \<le> e"
  proof (rule ccontr)
    assume "\<not> - 1022 \<le> e"
    then have "pow2 (e + 1) \<le> pow2 (- 1022)" by (intro pow2_mono) simp
    with hi small show False by simp
  qed
  have e52: "e \<le> 52"
  proof (rule ccontr)
    assume "\<not> e \<le> 52"
    then have "pow2 53 \<le> pow2 e" by (intro pow2_mono) simp
    with lo qk have "pow2 53 < of_int k" by simp
    then have "(of_int (2 ^ 53) :: rat) < of_int k" using pow2_nat [of 53] by simp
    then have "(2::int) ^ 53 < k" by (simp only: of_int_less_iff)
    with k(2) show False by simp
  qed
  let ?u = "pow2 (e - 52)"
  let ?K = "k * 2 ^ nat (52 - e)"
  have upos: "0 < ?u" by (rule pow2_pos)
  have ku: "of_int k / ?u = of_int ?K"
  proof -
    have "pow2 (52 - e) * pow2 (e - 52) = 1" by (simp add: pow2_add [symmetric] pow2_def)
    then have "of_int k = of_int k * pow2 (52 - e) * ?u" by simp
    then have "of_int k / ?u = of_int k * pow2 (52 - e)" using upos by (simp add: field_simps)
    also have "\<dots> = of_int ?K" using e52 by (simp add: pow2_def)
    finally show ?thesis .
  qed
  have half: "1 / 2 < (of_int k / 2 ^ 53) / ?u"
  proof -
    have "(2::rat) ^ 53 * ?u = pow2 53 * ?u" using pow2_nat [of 53] by simp
    also have "\<dots> = pow2 (53 + (e - 52))" by (simp only: pow2_add)
    also have "53 + (e - 52) = e + 1" by simp
    also have "pow2 (e + 1) = 2 * pow2 e" by (rule pow2_Suc)
    finally have den: "(2::rat) ^ 53 * ?u = 2 * pow2 e" .
    have "pow2 e < of_int k" using lo qk by simp
    then have h: "1 / 2 < of_int k / (2 * pow2 e)" using pow2_pos [of e] by (simp add: field_simps)
    have "(of_int k / 2 ^ 53) / ?u = of_int k / (2 ^ 53 * ?u)" by (simp only: divide_divide_eq_left)
    also have "\<dots> = of_int k / (2 * pow2 e)" by (simp only: den)
    finally show ?thesis using h by (simp only:)
  qed
  define c where "c = (of_int k :: rat) / 2 ^ 53"
  have qc: "q \<le> of_int k - c" using q(2) by (simp only: c_def)
  have halfc: "1 / 2 < c / ?u" using half by (simp only: c_def)
  have "q / ?u \<le> (of_int k - c) / ?u"
    by (rule divide_right_mono [OF qc less_imp_le [OF upos]])
  also have "\<dots> = of_int ?K - c / ?u" by (simp only: diff_divide_distrib ku)
  also have "\<dots> < of_int ?K - 1 / 2" using halfc by linarith
  finally have "roundHalfEven (q / ?u) \<le> ?K - 1" by (rule roundHalfEven_below)
  then have "(of_int (roundHalfEven (q / ?u)) :: rat) \<le> of_int (?K - 1)" by (simp only: of_int_le_iff)
  then have "of_int (roundHalfEven (q / ?u)) * ?u \<le> of_int (?K - 1) * ?u"
    using upos by (simp add: mult_right_mono less_imp_le)
  also have "\<dots> = of_int k - ?u" using ku upos by (simp add: field_simps)
  also have "\<dots> < of_int k" using upos by simp
  finally show ?thesis using e1022 by (simp add: nearest_def Let_def e_def [symmetric] max_def)
qed


lemma draw_bounds:
  fixes d :: nat
  defines "r \<equiv> (of_nat (d mod 2 ^ 53) :: rat) / 2 ^ 53"
  shows "0 \<le> r" and "r \<le> 1 - 1 / 2 ^ 53" and "r \<noteq> 0 \<Longrightarrow> 1 / 2 ^ 53 \<le> r"
proof -
  define m where "m = d mod 2 ^ 53"
  have r: "r = of_nat m / 2 ^ 53" by (simp add: r_def m_def)
  have "m < 2 ^ 53" by (simp add: m_def)
  then have "m + 1 \<le> 2 ^ 53" by simp
  then have "(of_nat (m + 1) :: rat) \<le> of_nat (2 ^ 53)" by (simp only: of_nat_le_iff)
  then have le: "(of_nat m :: rat) + 1 \<le> 2 ^ 53" by simp
  show "0 \<le> r" by (simp add: r)
  have "r = of_nat m / 2 ^ 53" by (rule r)
  also have "\<dots> \<le> (2 ^ 53 - 1) / 2 ^ 53" using le by (intro divide_right_mono) simp_all
  also have "\<dots> = 1 - 1 / 2 ^ 53" by (simp add: diff_divide_distrib)
  finally show "r \<le> 1 - 1 / 2 ^ 53" .
  show "1 / 2 ^ 53 \<le> r" if "r \<noteq> 0"
  proof -
    from that have "m \<noteq> 0" by (auto simp: r)
    then have "1 \<le> m" by simp
    then have "(of_nat 1 :: rat) \<le> of_nat m" by (simp only: of_nat_le_iff)
    then show ?thesis unfolding r by (intro divide_right_mono) simp_all
  qed
qed

lemma timesDraw_range:
  assumes k: "0 < k" "k < 2 ^ 53" and mr: "mathRandom s = (r, s')"
  shows "\<exists>m. jmul r (ofInt k) = Fin False m \<and> 0 \<le> m \<and> m < of_int k"
proof -
  define x where "x = (of_nat (shd s mod 2 ^ 53) :: rat) / 2 ^ 53"
  have r: "r = Fin False x" using mr by (simp add: mathRandom_def x_def)
  note B = draw_bounds [of "shd s", folded x_def]
  have kk: "ofInt k = Fin False (of_int k)" using k by (simp add: ofInt_small)
  have mul: "jmul r (ofInt k) = toDouble False (x * of_int k)" by (simp add: r kk)
  show ?thesis
  proof (cases "x = 0")
    case True
    then show ?thesis using k(1) by (simp add: mul toDouble_def)
  next
    case False
    have kpos: "(0::rat) < of_int k" using k(1) by simp
    have k1: "(1::rat) \<le> of_int k" using k(1) by (simp add: int_one_le_iff_zero_less)
    have xpos: "0 < x" using B(1) False by simp
    have qpos: "0 < x * of_int k" using xpos kpos by simp
    have "x * of_int k \<le> (1 - 1 / 2 ^ 53) * of_int k"
      using B(2) kpos by (intro mult_right_mono) simp_all
    also have "\<dots> = of_int k - of_int k / 2 ^ 53" by (simp add: left_diff_distrib)
    finally have qle: "x * of_int k \<le> of_int k - of_int k / 2 ^ 53" .
    have "pow2 (- 1022) \<le> pow2 (- 53)" by (intro pow2_mono) simp
    also have "\<dots> = 1 / 2 ^ 53" by (simp add: pow2_def)
    also have "\<dots> \<le> x" using B(3) False by simp
    also have "x = x * 1" by simp
    also have "\<dots> \<le> x * of_int k" using k1 xpos by (intro mult_left_mono) simp_all
    finally have small: "pow2 (- 1022) \<le> x * of_int k" .
    have lt: "nearest (x * of_int k) < of_int k"
      by (rule nearest_below [OF k qpos qle small])
    have "(of_int k :: rat) < of_int (2 ^ 53)" using k(2) by (simp only: of_int_less_iff)
    also have "\<dots> \<le> pow2 1024" by (simp add: pow2_def)
    finally have "\<not> pow2 1024 \<le> nearest (x * of_int k)" using lt by simp
    moreover have "x * of_int k \<noteq> 0" using False k(1) by simp
    ultimately have "toDouble False (x * of_int k) = Fin False (nearest (x * of_int k))"
      unfolding toDouble_def Let_def by (simp only: if_False)
    then show ?thesis using lt nearest_nonneg [of "x * of_int k"] qpos by (simp add: mul)
  qed
qed

lemma floorDraw_range:
  assumes "0 < k" "k < 2 ^ 53" "mathRandom s = (r, s')"
  shows "0 \<le> jsToInt (jfloor (jmul r (ofInt k)))" and "jsToInt (jfloor (jmul r (ofInt k))) < k"
proof -
  from timesDraw_range [OF assms] obtain m
    where m: "jmul r (ofInt k) = Fin False m" "0 \<le> m" "m < of_int k" by blast
  have f0: "0 \<le> \<lfloor>m\<rfloor>" using m(2) by simp
  have fk: "\<lfloor>m\<rfloor> < k" using m(3) by (simp add: floor_less_iff)
  have "jsToInt (jfloor (jmul r (ofInt k))) = \<lfloor>m\<rfloor>"
    using f0 by (simp add: m(1) sval_def Let_def)
  then show "0 \<le> jsToInt (jfloor (jmul r (ofInt k)))" and "jsToInt (jfloor (jmul r (ofInt k))) < k"
    using f0 fk by simp_all
qed



section \<open>Facts about the random draws\<close>

text \<open>A stream of draws that are all 0.\<close>

definition zeroDraws :: rng where
  "zeroDraws = sconst 0"

lemma zeroDraws_sel [simp]: "shd zeroDraws = 0" "stl zeroDraws = zeroDraws"
  by (simp_all add: zeroDraws_def)

lemma genId_zero: "genId refHost (zeroDraws) = ([], zeroDraws)"
  by (simp add: genId_def mathRandom_def refHost_def)




section \<open>The parameters of a round\<close>




section \<open>The tokenizer\<close>

text \<open>
  What a tokenization is, in the words of the specification: the input read from the left,
  where an unrecognized character is skipped, an operator or parenthesis is a token of its
  own, and a run of digits is a token when no digit follows it.
\<close>

inductive tokenization :: "string \<Rightarrow> string list \<Rightarrow> bool" where
  empty: "tokenization [] []"
| skip: "\<not> isDigit c \<Longrightarrow> \<not> isOpChar c \<Longrightarrow> tokenization cs ts \<Longrightarrow> tokenization (c # cs) ts"
| single: "isOpChar c \<Longrightarrow> tokenization cs ts \<Longrightarrow> tokenization (c # cs) ([c] # ts)"
| run: "ds \<noteq> [] \<Longrightarrow> list_all isDigit ds \<Longrightarrow> (cs = [] \<or> \<not> isDigit (hd cs))
        \<Longrightarrow> tokenization cs ts \<Longrightarrow> tokenization (ds @ cs) (ds # ts)"

lemma digit_not_op: "isDigit c \<Longrightarrow> \<not> isOpChar c"
  by (auto simp: isDigit_def isOpChar_def)

lemma tokenize_run:
  assumes "ds \<noteq> []" "list_all isDigit ds" "cs = [] \<or> \<not> isDigit (hd cs)"
  shows "tokenize (ds @ cs) = ds # tokenize cs"
proof -
  obtain d ds' where ds: "ds = d # ds'" using assms(1) by (cases ds) auto
  have d: "isDigit d" and ds': "list_all isDigit ds'" using assms(2) by (simp_all add: ds)
  have tw: "takeWhile isDigit (ds' @ cs) = ds'"
    using ds' assms(3) by (induction ds') (auto simp: takeWhile_eq_Nil_iff neq_Nil_conv)
  have dw: "dropWhile isDigit (ds' @ cs) = cs"
    using ds' assms(3) by (induction ds') (auto simp: dropWhile_eq_self_iff neq_Nil_conv)
  show ?thesis using d by (simp add: ds tw dw)
qed

lemma tokenization_tokenize: "tokenization s (tokenize s)"
proof (induction s rule: tokenize.induct)
  case 1
  show ?case by (simp add: tokenization.empty)
next
  case (2 c cs)
  show ?case
  proof (cases "isDigit c")
    case True
    let ?ds = "c # takeWhile isDigit cs"
    let ?rest = "dropWhile isDigit cs"
    have a: "list_all isDigit ?ds" using True by (simp add: list_all_iff) (meson set_takeWhileD)
    have b: "?rest = [] \<or> \<not> isDigit (hd ?rest)" using hd_dropWhile [of isDigit cs] by blast
    have "tokenization (?ds @ ?rest) (?ds # tokenize ?rest)"
      using 2(1) [OF True] a b by (intro tokenization.run) simp_all
    then show ?thesis using True by simp
  next
    case False
    show ?thesis
    proof (cases "isOpChar c")
      case True
      then show ?thesis using False 2(2) by (simp add: tokenization.single)
    next
      case nop: False
      then show ?thesis using False 2(3) by (simp add: tokenization.skip)
    qed
  qed
qed

lemma tokenization_unique: "tokenization s ts \<Longrightarrow> ts = tokenize s"
proof (induction rule: tokenization.induct)
  case empty
  show ?case by simp
next
  case (skip c cs ts)
  then show ?case by simp
next
  case (single c cs ts)
  then show ?case by (auto dest: digit_not_op)
next
  case (run ds cs ts)
  then show ?case by (simp add: tokenize_run)
qed

lemma concat_tokenize: "concat (tokenize s) = filter (\<lambda>c. isDigit c \<or> isOpChar c) s"
proof (induction s rule: tokenize.induct)
  case 1
  show ?case by simp
next
  case (2 c cs)
  have split: "filter (\<lambda>c. isDigit c \<or> isOpChar c) cs
      = takeWhile isDigit cs @ filter (\<lambda>c. isDigit c \<or> isOpChar c) (dropWhile isDigit cs)"
  proof -
    have "filter (\<lambda>c. isDigit c \<or> isOpChar c) (takeWhile isDigit cs) = takeWhile isDigit cs"
      by (rule filter_True) (auto dest: set_takeWhileD)
    then show ?thesis
      using filter_append [of "\<lambda>c. isDigit c \<or> isOpChar c" "takeWhile isDigit cs" "dropWhile isDigit cs"]
      by simp
  qed
  show ?case using 2 split by (auto dest: digit_not_op)
qed

lemma tokenize_shapes:
  "t \<in> set (tokenize s) \<Longrightarrow> (t \<noteq> [] \<and> list_all isDigit t) \<or> (\<exists>c. isOpChar c \<and> t = [c])"
proof (induction s rule: tokenize.induct)
  case 1
  then show ?case by simp
next
  case (2 c cs)
  then show ?case
    by (auto simp: list_all_iff split: if_splits dest: set_takeWhileD)
qed

text \<open>
  Claim C10. \<open>tokenize\<close> returns exactly the tokenization of its input: the maximal runs
  of digits and the single operator and parenthesis characters, in order, every other
  character skipped wherever it stands. So the concatenation of the tokens is the input
  without its unrecognized characters, and \<open>"3+4a"\<close> gives \<open>["3", "+", "4"]\<close>, whose
  concatenation is not the input.
\<close>

theorem tokenize_maximal_runs:
  "(tokenization s ts \<longleftrightarrow> ts = tokenize s)
   \<and> concat (tokenize s) = filter (\<lambda>c. isDigit c \<or> isOpChar c) s
   \<and> (\<forall>t \<in> set (tokenize s). (t \<noteq> [] \<and> list_all isDigit t) \<or> (\<exists>c. isOpChar c \<and> t = [c]))
   \<and> tokenize ''3+4a'' = [''3'', ''+'', ''4'']
   \<and> concat (tokenize ''3+4a'') \<noteq> ''3+4a''"
proof (intro conjI ballI)
  show "tokenization s ts \<longleftrightarrow> ts = tokenize s"
    using tokenization_tokenize tokenization_unique by blast
  show "concat (tokenize s) = filter (\<lambda>c. isDigit c \<or> isOpChar c) s" by (rule concat_tokenize)
  show "tokenize ''3+4a'' = [''3'', ''+'', ''4'']" by (simp add: isDigit_def isOpChar_def)
  then show "concat (tokenize ''3+4a'') \<noteq> ''3+4a''" by simp
next
  fix t assume "t \<in> set (tokenize s)"
  then show "(t \<noteq> [] \<and> list_all isDigit t) \<or> (\<exists>c. isOpChar c \<and> t = [c])"
    by (rule tokenize_shapes)
qed

theorem tokenize_maximal_runs_witness:
  "tokenization ''12a3*'' [''12'', ''3'', ''*'']
   \<and> concat (tokenize ''12a3*'') = ''123*''
   \<and> tokenize ''12a3*'' = [''12'', ''3'', ''*'']"
proof -
  have t: "tokenize ''12a3*'' = [''12'', ''3'', ''*'']" by (simp add: isDigit_def isOpChar_def)
  show ?thesis
    using tokenize_maximal_runs [of "''12a3*''" "[''12'', ''3'', ''*'']"] t by simp
qed


section \<open>Revealing the solution\<close>

text \<open>A state in the middle of a round, for the examples: the puzzle \<open>3+4\<close> with the
  operator placed.\<close>

definition examplePool :: "poolToken list" where
  "examplePool =
     [\<lparr>tokId = ''a'', token = ''+'', used = True\<rparr>,
      \<lparr>tokId = ''b'', token = ''4'', used = False\<rparr>,
      \<lparr>tokId = ''c'', token = ''3'', used = False\<rparr>]"

definition exampleState :: state where
  "exampleState =
     initialState\<lparr> originalExpr := ''3+4'', originalTokens := [''3'', ''+'', ''4''],
                   targetValue := Some (Fin False 7), availableTokens := examplePool,
                   equationTokens := [\<lparr>tokId = ''a'', token = ''+''\<rparr>] \<rparr>"

lemma findIndex_Some:
  "findIndex P xs = Some i \<Longrightarrow> i < length xs \<and> P (xs ! i)"
proof (induction xs arbitrary: i)
  case Nil
  then show ?case by simp
next
  case (Cons x xs)
  then show ?case by (cases "P x") (auto simp: nth_Cons')
qed

lemma revealLoop_tokens:
  "map token (snd (fst (revealLoop h toks av eq s))) = map token eq @ toks"
proof (induction toks arbitrary: av eq s)
  case Nil
  show ?case by simp
next
  case (Cons tok toks)
  show ?case
  proof (cases "findIndex (\<lambda>t. \<not> used t \<and> token t = tok) av")
    case None
    obtain i s' where g: "genId h s = (i, s')" by (cases "genId h s")
    show ?thesis using Cons [of av "eq @ [\<lparr>tokId = i, token = tok\<rparr>]" s'] by (simp add: None g)
  next
    case (Some idx)
    from findIndex_Some [OF Some] have "token (av ! idx) = tok" by simp
    then show ?thesis
      using Cons [of "av[idx := (av ! idx)\<lparr>used := True\<rparr>]"
                     "eq @ [\<lparr>tokId = tokId (av ! idx), token = token (av ! idx)\<rparr>]" s]
      by (simp add: Some)
  qed
qed

lemma revealLoop_pool:
  "map token (fst (fst (revealLoop h toks av eq s))) = map token av
   \<and> map tokId (fst (fst (revealLoop h toks av eq s))) = map tokId av"
proof (induction toks arbitrary: av eq s)
  case Nil
  show ?case by simp
next
  case (Cons tok toks)
  show ?case
  proof (cases "findIndex (\<lambda>t. \<not> used t \<and> token t = tok) av")
    case None
    obtain i s' where g: "genId h s = (i, s')" by (cases "genId h s")
    show ?thesis using Cons [of av "eq @ [\<lparr>tokId = i, token = tok\<rparr>]" s'] by (simp add: None g)
  next
    case (Some idx)
    from findIndex_Some [OF Some] have "idx < length av" by simp
    then have "map token (av[idx := (av ! idx)\<lparr>used := True\<rparr>]) = map token av"
      and "map tokId (av[idx := (av ! idx)\<lparr>used := True\<rparr>]) = map tokId av"
      by (simp_all add: map_update list_update_same_conv)
    then show ?thesis
      using Cons [of "av[idx := (av ! idx)\<lparr>used := True\<rparr>]"
                     "eq @ [\<lparr>tokId = tokId (av ! idx), token = token (av ! idx)\<rparr>]" s]
      by (simp add: Some)
  qed
qed

text \<open>The entry that \<open>addToEquation\<close> appends for a pool token.\<close>

definition refOf :: "poolToken \<Rightarrow> tokenRef" where
  "refOf t = \<lparr>tokId = tokId t, token = token t\<rparr>"

text \<open>
  What revealing is, in the words of the specification: the puzzle's tokens are taken in
  their order; a token whose text matches an unconsumed pool token takes that pool token
  (its id, and the pool token becomes consumed), a token that matches none gets an entry
  with the original text and an id of its own. \<open>reveals toks pool eq pool'\<close>: from the pool
  \<open>pool\<close> the tokens \<open>toks\<close> give the equation \<open>eq\<close> and leave the pool \<open>pool'\<close>.
\<close>

inductive reveals :: "string list \<Rightarrow> poolToken list \<Rightarrow> tokenRef list \<Rightarrow> poolToken list \<Rightarrow> bool" where
  nothing: "reveals [] pool [] pool"
| reuse: "i < length pool \<Longrightarrow> \<not> used (pool ! i) \<Longrightarrow> token (pool ! i) = tok
          \<Longrightarrow> reveals toks (pool[i := (pool ! i)\<lparr>used := True\<rparr>]) eq pool'
          \<Longrightarrow> reveals (tok # toks) pool (\<lparr>tokId = tokId (pool ! i), token = tok\<rparr> # eq) pool'"
| synthesize: "\<forall>t \<in> set pool. used t \<or> token t \<noteq> tok
          \<Longrightarrow> reveals toks pool eq pool'
          \<Longrightarrow> reveals (tok # toks) pool (\<lparr>tokId = i, token = tok\<rparr> # eq) pool'"

lemma findIndex_None: "findIndex P xs = None \<Longrightarrow> \<forall>x \<in> set xs. \<not> P x"
  by (induction xs) (auto split: if_splits)

lemma revealLoop_reveals:
  "revealLoop h toks av eq s = ((na, ne), s') \<Longrightarrow> \<exists>eq'. ne = eq @ eq' \<and> reveals toks av eq' na"
proof (induction toks arbitrary: av eq s)
  case Nil
  then show ?case by (auto intro: reveals.nothing)
next
  case (Cons tok toks)
  show ?case
  proof (cases "findIndex (\<lambda>t. \<not> used t \<and> token t = tok) av")
    case None
    obtain i s1 where g: "genId h s = (i, s1)" by (cases "genId h s")
    from Cons.prems have "revealLoop h toks av (eq @ [\<lparr>tokId = i, token = tok\<rparr>]) s1 = ((na, ne), s')"
      by (simp add: None g)
    from Cons.IH [OF this] obtain eq' where
      eq': "ne = (eq @ [\<lparr>tokId = i, token = tok\<rparr>]) @ eq'" "reveals toks av eq' na" by blast
    have "\<forall>t \<in> set av. used t \<or> token t \<noteq> tok" using findIndex_None [OF None] by blast
    then have "reveals (tok # toks) av (\<lparr>tokId = i, token = tok\<rparr> # eq') na"
      using eq'(2) by (rule reveals.synthesize)
    then show ?thesis using eq'(1) by auto
  next
    case (Some idx)
    from findIndex_Some [OF Some]
    have idx: "idx < length av" "\<not> used (av ! idx)" "token (av ! idx) = tok" by simp_all
    let ?e = "\<lparr>tokId = tokId (av ! idx), token = token (av ! idx)\<rparr>"
    from Cons.prems
    have "revealLoop h toks (av[idx := (av ! idx)\<lparr>used := True\<rparr>]) (eq @ [?e]) s = ((na, ne), s')"
      by (simp add: Some)
    from Cons.IH [OF this] obtain eq' where
      eq': "ne = (eq @ [?e]) @ eq'" "reveals toks (av[idx := (av ! idx)\<lparr>used := True\<rparr>]) eq' na"
      by blast
    have "reveals (tok # toks) av (\<lparr>tokId = tokId (av ! idx), token = tok\<rparr> # eq') na"
      using idx eq'(2) by (rule reveals.reuse)
    then show ?thesis using eq'(1) idx(3) by auto
  qed
qed

text \<open>When the unconsumed pool tokens are the tokens to reveal, every token is found in the
  pool: no id is drawn, the whole pool ends consumed, and the equation is made of the pool's
  tokens.\<close>

lemma revealLoop_complete:
  "mset (map token (filter (\<lambda>t. \<not> used t) av)) = mset toks \<Longrightarrow>
   snd (revealLoop h toks av eq s) = s
   \<and> (\<forall>t \<in> set (fst (fst (revealLoop h toks av eq s))). used t)
   \<and> mset (snd (fst (revealLoop h toks av eq s)))
       = mset eq + image_mset refOf (filter_mset (\<lambda>t. \<not> used t) (mset av))"
proof (induction toks arbitrary: av eq)
  case Nil
  then have "filter (\<lambda>t. \<not> used t) av = []" by simp
  then have "\<forall>t \<in> set av. used t" by (simp add: filter_empty_conv)
  moreover from this have "filter_mset (\<lambda>t. \<not> used t) (mset av) = {#}"
    by (simp add: filter_mset_eq_mempty_iff)
  ultimately show ?case by simp
next
  case (Cons tok toks)
  have "tok \<in># mset (map token (filter (\<lambda>t. \<not> used t) av))" unfolding Cons.prems by simp
  then obtain t where t: "t \<in> set av" "\<not> used t" "token t = tok" by auto
  then have "findIndex (\<lambda>t. \<not> used t \<and> token t = tok) av \<noteq> None"
    using findIndex_None [of "\<lambda>t. \<not> used t \<and> token t = tok" av] by blast
  then obtain idx where Some: "findIndex (\<lambda>t. \<not> used t \<and> token t = tok) av = Some idx" by auto
  from findIndex_Some [OF Some]
  have idx: "idx < length av" "\<not> used (av ! idx)" "token (av ! idx) = tok" by simp_all
  let ?av = "av[idx := (av ! idx)\<lparr>used := True\<rparr>]"
  let ?e = "\<lparr>tokId = tokId (av ! idx), token = token (av ! idx)\<rparr>"
  have mem: "av ! idx \<in># filter_mset (\<lambda>t. \<not> used t) (mset av)" using idx by simp
  then obtain M where M: "filter_mset (\<lambda>t. \<not> used t) (mset av) = add_mset (av ! idx) M"
    by (meson multi_member_split)
  have f: "filter_mset (\<lambda>t. \<not> used t) (mset ?av) = M"
    using idx by (simp add: mset_update filter_diff_mset M)
  have "image_mset token (filter_mset (\<lambda>t. \<not> used t) (mset av)) = add_mset tok (mset toks)"
    using Cons.prems by simp
  then have "image_mset token M = mset toks" by (simp add: M idx(3))
  then have pre: "mset (map token (filter (\<lambda>t. \<not> used t) ?av)) = mset toks"
    using f by simp
  have step: "revealLoop h (tok # toks) av eq s = revealLoop h toks ?av (eq @ [?e]) s"
    by (simp add: Some)
  have e: "?e = refOf (av ! idx)" by (simp add: refOf_def)
  have sum: "mset (eq @ [?e]) + image_mset refOf (filter_mset (\<lambda>t. \<not> used t) (mset ?av))
      = mset eq + image_mset refOf (filter_mset (\<lambda>t. \<not> used t) (mset av))"
    by (simp only: f M e) simp
  from Cons.IH [OF pre, of "eq @ [?e]"]
  have "snd (revealLoop h toks ?av (eq @ [?e]) s) = s"
    and "\<forall>t \<in> set (fst (fst (revealLoop h toks ?av (eq @ [?e]) s))). used t"
    and "mset (snd (fst (revealLoop h toks ?av (eq @ [?e]) s)))
       = mset (eq @ [?e]) + image_mset refOf (filter_mset (\<lambda>t. \<not> used t) (mset ?av))"
    by blast+
  then show ?case unfolding step by (simp only: sum simp_thms)
qed

text \<open>
  Claim C9. Whatever the state of the pool, \<open>revealSolution\<close> leaves an equation whose token
  texts are the puzzle's original tokens in their order, and the pool keeps its ids and
  texts. When the puzzle's tokens are the tokens of its expression and the expression is made
  of digits, operators and parentheses (as for every puzzle of \<open>newRound\<close>), the texts
  concatenated are the original expression. The equation and the pool are a revealing of
  the tokens from the pool with every flag cleared: each token takes an unconsumed pool
  token of its text when there is one, and only then gets an id of its own. When the pool
  holds the puzzle's tokens, as it does in every round, no id is drawn at all: the equation
  is made of the pool's tokens, each taken once, and the whole pool ends consumed.
\<close>

theorem revealSolution_reuses:
  "map token (equationTokens (fst (revealSolution h st s))) = originalTokens st
   \<and> map token (availableTokens (fst (revealSolution h st s))) = map token (availableTokens st)
   \<and> map tokId (availableTokens (fst (revealSolution h st s))) = map tokId (availableTokens st)
   \<and> (originalTokens st = tokenize (originalExpr st)
        \<and> list_all (\<lambda>c. isDigit c \<or> isOpChar c) (originalExpr st)
      \<longrightarrow> concat (map token (equationTokens (fst (revealSolution h st s)))) = originalExpr st)
   \<and> reveals (originalTokens st) (map (\<lambda>t. t\<lparr>used := False\<rparr>) (availableTokens st))
        (equationTokens (fst (revealSolution h st s))) (availableTokens (fst (revealSolution h st s)))
   \<and> (mset (map token (availableTokens st)) = mset (originalTokens st) \<longrightarrow>
        snd (revealSolution h st s) = s
      \<and> (\<forall>t \<in> set (availableTokens (fst (revealSolution h st s))). used t)
      \<and> mset (equationTokens (fst (revealSolution h st s)))
          = image_mset refOf (mset (availableTokens st)))"
proof -
  let ?av = "map (\<lambda>t. t\<lparr>used := False\<rparr>) (availableTokens st)"
  obtain na ne s' where r: "revealLoop h (originalTokens st) ?av [] s = ((na, ne), s')"
    by (cases "revealLoop h (originalTokens st) ?av [] s") auto
  have st': "fst (revealSolution h st s)
      = st\<lparr>availableTokens := na, equationTokens := ne, solutionVisible := True\<rparr>"
    and s': "snd (revealSolution h st s) = s'"
    by (simp_all add: revealSolution_def r)
  have ne: "map token ne = originalTokens st"
    using revealLoop_tokens [of h "originalTokens st" ?av "[]" s] by (simp add: r)
  have na: "map token na = map token (availableTokens st)" "map tokId na = map tokId (availableTokens st)"
    using revealLoop_pool [of h "originalTokens st" ?av "[]" s] by (simp_all add: r comp_def)
  have cc: "concat (map token ne) = originalExpr st"
    if "originalTokens st = tokenize (originalExpr st)"
      and "list_all (\<lambda>c. isDigit c \<or> isOpChar c) (originalExpr st)"
  proof -
    have "concat (map token ne) = filter (\<lambda>c. isDigit c \<or> isOpChar c) (originalExpr st)"
      using that(1) by (simp add: ne concat_tokenize)
    also have "\<dots> = originalExpr st" using that(2) by (simp add: list_all_iff)
    finally show ?thesis .
  qed
  have rv: "reveals (originalTokens st) ?av ne na"
    using revealLoop_reveals [OF r] by simp
  have full: "s' = s \<and> (\<forall>t \<in> set na. used t) \<and> mset ne = image_mset refOf (mset (availableTokens st))"
    if m: "mset (map token (availableTokens st)) = mset (originalTokens st)"
  proof -
    have fl: "filter (\<lambda>t. \<not> used t) ?av = ?av" by (simp add: filter_id_conv)
    have "mset (map token (filter (\<lambda>t. \<not> used t) ?av)) = mset (originalTokens st)"
      unfolding fl using m by (simp add: comp_def)
    from revealLoop_complete [OF this, of h "[]" s]
    have a: "s' = s" "\<forall>t \<in> set na. used t"
      and b: "mset ne = image_mset refOf (filter_mset (\<lambda>t. \<not> used t) (mset ?av))"
      by (simp_all add: r)
    have "filter_mset (\<lambda>t. \<not> used t) (mset ?av) = mset ?av"
      using fl by (metis mset_filter)
    then have "mset ne = image_mset refOf (mset ?av)" using b by simp
    also have "\<dots> = image_mset (refOf \<circ> (\<lambda>t. t\<lparr>used := False\<rparr>)) (mset (availableTokens st))"
      by (simp add: image_mset.compositionality)
    also have "refOf \<circ> (\<lambda>t. t\<lparr>used := False\<rparr>) = refOf"
      by (simp add: fun_eq_iff refOf_def)
    finally show ?thesis using a by simp
  qed
  show ?thesis using cc rv full by (simp add: st' s' ne na)
qed

theorem revealSolution_reuses_witness:
  "originalTokens exampleState = tokenize (originalExpr exampleState)
   \<and> list_all (\<lambda>c. isDigit c \<or> isOpChar c) (originalExpr exampleState)
   \<and> mset (map token (availableTokens exampleState)) = mset (originalTokens exampleState)
   \<and> equationTokens (fst (revealSolution refHost exampleState zeroDraws))
       = [\<lparr>tokId = ''c'', token = ''3''\<rparr>, \<lparr>tokId = ''a'', token = ''+''\<rparr>, \<lparr>tokId = ''b'', token = ''4''\<rparr>]
   \<and> concat (map token (equationTokens (fst (revealSolution refHost exampleState zeroDraws)))) = ''3+4''
   \<and> filter (\<lambda>t. \<not> used t) (availableTokens (fst (revealSolution refHost exampleState zeroDraws))) = []
   \<and> reveals [''3'', ''+'', ''4'']
        [\<lparr>tokId = ''a'', token = ''+'', used = False\<rparr>, \<lparr>tokId = ''b'', token = ''4'', used = False\<rparr>,
         \<lparr>tokId = ''c'', token = ''3'', used = False\<rparr>]
        [\<lparr>tokId = ''c'', token = ''3''\<rparr>, \<lparr>tokId = ''a'', token = ''+''\<rparr>, \<lparr>tokId = ''b'', token = ''4''\<rparr>]
        [\<lparr>tokId = ''a'', token = ''+'', used = True\<rparr>, \<lparr>tokId = ''b'', token = ''4'', used = True\<rparr>,
         \<lparr>tokId = ''c'', token = ''3'', used = True\<rparr>]
   \<and> reveals [''3'', ''3'']
        [\<lparr>tokId = ''a'', token = ''+'', used = False\<rparr>, \<lparr>tokId = ''b'', token = ''4'', used = False\<rparr>,
         \<lparr>tokId = ''c'', token = ''3'', used = False\<rparr>]
        [\<lparr>tokId = ''c'', token = ''3''\<rparr>, \<lparr>tokId = [], token = ''3''\<rparr>]
        [\<lparr>tokId = ''a'', token = ''+'', used = False\<rparr>, \<lparr>tokId = ''b'', token = ''4'', used = False\<rparr>,
         \<lparr>tokId = ''c'', token = ''3'', used = True\<rparr>]"
proof -
  let ?st2 = "exampleState\<lparr>originalTokens := [''3'', ''3'']\<rparr>"
  have a: "originalTokens exampleState = tokenize (originalExpr exampleState)"
    and b: "list_all (\<lambda>c. isDigit c \<or> isOpChar c) (originalExpr exampleState)"
    and m: "mset (map token (availableTokens exampleState)) = mset (originalTokens exampleState)"
    by (simp_all add: exampleState_def examplePool_def isDigit_def isOpChar_def)
  have c: "originalExpr exampleState = ''3+4''" "originalTokens exampleState = [''3'', ''+'', ''4'']"
    "originalTokens ?st2 = [''3'', ''3'']"
    "map (\<lambda>t. t\<lparr>used := False\<rparr>) (availableTokens exampleState)
       = [\<lparr>tokId = ''a'', token = ''+'', used = False\<rparr>, \<lparr>tokId = ''b'', token = ''4'', used = False\<rparr>,
          \<lparr>tokId = ''c'', token = ''3'', used = False\<rparr>]"
    "availableTokens ?st2 = availableTokens exampleState"
    by (simp_all add: exampleState_def examplePool_def)
  have e1: "equationTokens (fst (revealSolution refHost exampleState zeroDraws))
       = [\<lparr>tokId = ''c'', token = ''3''\<rparr>, \<lparr>tokId = ''a'', token = ''+''\<rparr>, \<lparr>tokId = ''b'', token = ''4''\<rparr>]"
    and p1: "availableTokens (fst (revealSolution refHost exampleState zeroDraws))
       = [\<lparr>tokId = ''a'', token = ''+'', used = True\<rparr>, \<lparr>tokId = ''b'', token = ''4'', used = True\<rparr>,
          \<lparr>tokId = ''c'', token = ''3'', used = True\<rparr>]"
    by (simp_all add: revealSolution_def exampleState_def examplePool_def)
  have e2: "equationTokens (fst (revealSolution refHost ?st2 zeroDraws))
       = [\<lparr>tokId = ''c'', token = ''3''\<rparr>, \<lparr>tokId = [], token = ''3''\<rparr>]"
    and p2: "availableTokens (fst (revealSolution refHost ?st2 zeroDraws))
       = [\<lparr>tokId = ''a'', token = ''+'', used = False\<rparr>, \<lparr>tokId = ''b'', token = ''4'', used = False\<rparr>,
          \<lparr>tokId = ''c'', token = ''3'', used = True\<rparr>]"
    by (simp_all add: revealSolution_def exampleState_def examplePool_def genId_zero)
  note t1 = revealSolution_reuses [of refHost exampleState zeroDraws, unfolded e1 p1 c]
  note t2 = revealSolution_reuses [of refHost ?st2 zeroDraws, unfolded e2 p2 c]
  from t1 a b have cc: "concat (map token [\<lparr>tokId = ''c'', token = ''3''\<rparr>, \<lparr>tokId = ''a'', token = ''+''\<rparr>,
      \<lparr>tokId = ''b'', token = ''4''\<rparr>]) = ''3+4''" unfolding c by blast
  from t1 have r1: "reveals [''3'', ''+'', ''4'']
        [\<lparr>tokId = ''a'', token = ''+'', used = False\<rparr>, \<lparr>tokId = ''b'', token = ''4'', used = False\<rparr>,
         \<lparr>tokId = ''c'', token = ''3'', used = False\<rparr>]
        [\<lparr>tokId = ''c'', token = ''3''\<rparr>, \<lparr>tokId = ''a'', token = ''+''\<rparr>, \<lparr>tokId = ''b'', token = ''4''\<rparr>]
        [\<lparr>tokId = ''a'', token = ''+'', used = True\<rparr>, \<lparr>tokId = ''b'', token = ''4'', used = True\<rparr>,
         \<lparr>tokId = ''c'', token = ''3'', used = True\<rparr>]" by blast
  from t2 have r2: "reveals [''3'', ''3'']
        [\<lparr>tokId = ''a'', token = ''+'', used = False\<rparr>, \<lparr>tokId = ''b'', token = ''4'', used = False\<rparr>,
         \<lparr>tokId = ''c'', token = ''3'', used = False\<rparr>]
        [\<lparr>tokId = ''c'', token = ''3''\<rparr>, \<lparr>tokId = [], token = ''3''\<rparr>]
        [\<lparr>tokId = ''a'', token = ''+'', used = False\<rparr>, \<lparr>tokId = ''b'', token = ''4'', used = False\<rparr>,
         \<lparr>tokId = ''c'', token = ''3'', used = True\<rparr>]" by blast
  have f: "filter (\<lambda>t. \<not> used t) (availableTokens (fst (revealSolution refHost exampleState zeroDraws))) = []"
    by (simp add: p1)
  from a b m e1 cc f r1 r2 show ?thesis unfolding e1 by (intro conjI)
qed


section \<open>Evaluating expressions\<close>

text \<open>Trees without a regular expression literal, and trees without a call (the operand of
  \<open>++\<close> and \<open>--\<close> is one).\<close>

fun regexFree :: "ast \<Rightarrow> bool" where
  "regexFree (Lit n) = True"
| "regexFree (RegexLit b) = False"
| "regexFree (Neg e) = regexFree e"
| "regexFree (Pos e) = regexFree e"
| "regexFree (Bin op a b) = (regexFree a \<and> regexFree b)"
| "regexFree (Call0 f) = regexFree f"
| "regexFree (Call1 f a) = (regexFree f \<and> regexFree a)"
| "regexFree (Upd e) = regexFree e"

fun callFree :: "ast \<Rightarrow> bool" where
  "callFree (Lit n) = True"
| "callFree (RegexLit b) = True"
| "callFree (Neg e) = callFree e"
| "callFree (Pos e) = callFree e"
| "callFree (Bin op a b) = (callFree a \<and> callFree b)"
| "callFree (Call0 f) = False"
| "callFree (Call1 f a) = False"
| "callFree (Upd e) = False"


lemma toDouble_numeral:
  "numeral k < (2::int) ^ 53 \<Longrightarrow> toDouble s (numeral k) = Fin s (numeral k)"
  using toDouble_int [of "numeral k" s] by simp

lemma toDouble_zero: "toDouble s 0 = Fin s 0"
  by (simp add: toDouble_def)

lemma toDouble_one: "toDouble s 1 = Fin s 1"
  using toDouble_int [of 1 s] by simp

lemma eps9_val: "eps9 = Fin False (4835703278458517 / 4835703278458516698824704)"
  unfolding eps9_def by code_simp

lemma jround_int: "0 \<le> n \<Longrightarrow> jround (Fin False (of_int n)) = Fin False (of_int n)"
proof -
  assume n: "0 \<le> n"
  have "\<lfloor>(of_int n :: rat) + 1 / 2\<rfloor> = n" by (simp add: floor_unique)
  then show ?thesis using n by (simp add: sval_def Let_def)
qed

declare jround.simps [simp del]

lemma jround_numeral: "jround (Fin False (numeral k)) = Fin False (numeral k)"
  using jround_int [of "numeral k"] by simp

lemma whole_numeral:
  "\<not> jgreater (jabs (jsub (Fin False (numeral k)) (jround (Fin False (numeral k))))) eps9"
  by (simp add: jround_numeral jsub_def sval_def jgreater_def eps9_val)

lemmas js_eval =
  safeEval_def safeChars_def isDigit_def isOpChar_def newFunctionReturn_def consTok_def
  digitsVal_def digitVal_def parse.simps ofNat_def ofRat_def sval_def jsub_def
  toDouble_numeral toDouble_zero toDouble_one


lemma safeEval_1d0: "safeEval h ''1/0'' = Inr (JNum (Infty False))"
  by (simp add: js_eval)

lemma safeEval_0d0: "safeEval h ''0/0'' = Inr (JNum NaN)"
  by (simp add: js_eval)

lemma safeEval_regex: "safeEval h ''/1/'' = Inr (JRegExp ''1'')"
  by (simp add: js_eval)

lemma safeEval_escape: "safeEval h ''1)+(2'' = Inr (JNum (Fin False 3))"
  by (simp add: js_eval)

lemma jdiv_zero: "\<not> isFiniteNum (jdiv x (Fin s 0))"
  by (cases x) simp_all

lemma applyBin_numbers: "\<exists>z. applyBin h op (JNum x) (JNum y) = JNum z"
  by (cases op) simp_all

lemma evalAst_arithmetic: "regexFree t \<Longrightarrow> callFree t \<Longrightarrow> \<exists>x. evalAst h t = Some (JNum x)"
proof (induction t)
  case (Bin op a b)
  then obtain x y where "evalAst h a = Some (JNum x)" "evalAst h b = Some (JNum y)" by auto
  then show ?case using applyBin_numbers [of h op x y] by auto
qed auto

lemma evalAst_call: "\<not> callFree t \<Longrightarrow> evalAst h t = None"
  by (induction t) (auto split: option.splits)

lemma newFunctionReturn_errors:
  "newFunctionReturn h e = Inl x \<Longrightarrow> x = SyntaxError \<or> x = TypeError"
  by (auto simp: newFunctionReturn_def split: option.splits if_splits)

section \<open>The checker\<close>









section \<open>The safe evaluator\<close>

text \<open>
  Claim C1 fails as stated: \<open>1/0\<close> passes the character test and \<open>safeEval\<close> returns
  \<open>Infinity\<close>; \<open>0/0\<close> returns \<open>NaN\<close>.
\<close>

theorem safeEval_nonfinite_counterexample:
  "safeChars ''1/0''
   \<and> safeEval refHost ''1/0'' = Inr (JNum (Infty False))
   \<and> \<not> numberIsFinite (JNum (Infty False))
   \<and> safeEval refHost ''0/0'' = Inr (JNum NaN)"
  by (simp add: safeEval_1d0 safeEval_0d0) (simp add: safeChars_def isDigit_def isOpChar_def)

text \<open>
  Claim C1, amended. \<open>safeEval\<close> throws \<open>Unsafe expression\<close> for a text that fails the
  character test and otherwise returns or throws what the host does; the host throws only
  a SyntaxError or a TypeError. A division by zero is no error: the quotient of a number
  by a zero is an infinity or \<open>NaN\<close>, and that is the value returned. The callers in the
  generator test \<open>Number.isFinite\<close> on the value themselves: for a value that is not a
  finite number \<open>buildRandomExpr\<close> throws \<open>badVal\<close> and \<open>newRound\<close> rejects the attempt.
\<close>

theorem safeEval_returns_nonfinite:
  "(\<not> safeChars e \<longrightarrow> safeEval h e = Inl (Error ''Unsafe expression''))
   \<and> (safeChars e \<longrightarrow> safeEval h e = newFunctionReturn h e
         \<and> (\<forall>x. safeEval h e = Inl x \<longrightarrow> x = SyntaxError \<or> x = TypeError))
   \<and> (\<forall>a b x s. evalAst h a = Some (JNum x) \<and> evalAst h b = Some (JNum (Fin s 0)) \<longrightarrow>
         (\<exists>r. evalAst h (Bin Div a b) = Some (JNum r) \<and> \<not> isFiniteNum r))
   \<and> (\<forall>v. safeEval h e = Inr v \<and> \<not> numberIsFinite v \<longrightarrow>
         evalFinite h e = Inl (Error ''badVal'') \<and> acceptValue h e = None)"
proof (intro conjI allI impI)
  assume "\<not> safeChars e"
  then show "safeEval h e = Inl (Error ''Unsafe expression'')" by (simp add: safeEval_def)
next
  assume c: "safeChars e"
  then show "safeEval h e = newFunctionReturn h e" by (simp add: safeEval_def)
  fix x assume "safeEval h e = Inl x"
  then show "x = SyntaxError \<or> x = TypeError"
    using c newFunctionReturn_errors [of h e x] by (simp add: safeEval_def)
next
  fix a b x s
  assume "evalAst h a = Some (JNum x) \<and> evalAst h b = Some (JNum (Fin s 0))"
  then have "evalAst h (Bin Div a b) = Some (JNum (jdiv x (Fin s 0)))" by simp
  then show "\<exists>r. evalAst h (Bin Div a b) = Some (JNum r) \<and> \<not> isFiniteNum r"
    using jdiv_zero by blast
next
  fix v assume v: "safeEval h e = Inr v \<and> \<not> numberIsFinite v"
  then show "evalFinite h e = Inl (Error ''badVal'')" by (simp add: evalFinite_def)
  from v show "acceptValue h e = None" by (simp add: acceptValue_def)
qed

theorem safeEval_returns_nonfinite_witness:
  "safeChars ''1/0''
   \<and> safeEval refHost ''1/0'' = newFunctionReturn refHost ''1/0''
   \<and> evalAst refHost (Bin Div (Lit 1) (Lit 0)) = Some (JNum (Infty False))
   \<and> evalFinite refHost ''1/0'' = Inl (Error ''badVal'')
   \<and> acceptValue refHost ''1/0'' = None"
proof -
  have c: "safeChars ''1/0''" by (simp add: safeChars_def isDigit_def isOpChar_def)
  have v: "safeEval refHost ''1/0'' = Inr (JNum (Infty False)) \<and> \<not> numberIsFinite (JNum (Infty False))"
    by (simp add: safeEval_1d0)
  have d: "evalAst refHost (Bin Div (Lit 1) (Lit 0)) = Some (JNum (Infty False))"
    by (simp add: ofNat_def toDouble_zero toDouble_one)
  from safeEval_returns_nonfinite [of "''1/0''" refHost] c v d show ?thesis by blast
qed

text \<open>
  Claim C2 fails as stated: \<open>safeEval\<close> hands the text to the host's Function constructor.
  So \<open>/1/\<close> is read as a regular expression literal and the result is a RegExp object,
  not a number; and \<open>1)+(2\<close>, which no grammar of arithmetic expressions accepts, is the
  sum 3, because the parentheses of the function body close around it.
\<close>

theorem safeEval_closed_counterexample:
  "safeChars ''/1/''
   \<and> safeEval refHost ''/1/'' = Inr (JRegExp ''1'')
   \<and> safeChars ''1)+(2''
   \<and> \<not> balancedParens ''1)+(2''
   \<and> safeEval refHost ''1)+(2'' = Inr (JNum (Fin False 3))"
  by (simp add: safeEval_regex safeEval_escape)
     (simp add: safeChars_def isDigit_def isOpChar_def balancedParens_def)

text \<open>
  Claim C2, amended. \<open>safeEval\<close> is a character filter in front of the host's evaluator:
  it rejects every text with a character outside \<open>0-9 + - * / ( )\<close> (and the empty text),
  and for the others it returns what \<open>new Function\<close> returns for the body
  \<open>"use strict"; return (\<close>\<^emph>\<open>text\<close>\<open>);\<close>. What the host evaluates is a number whenever the
  expression it parsed has no regular expression literal and no call, and a call always
  throws.
\<close>

theorem safeEval_delegates:
  "safeEval h e = (if safeChars e then newFunctionReturn h e else Inl (Error ''Unsafe expression''))
   \<and> (safeChars e \<longleftrightarrow> e \<noteq> [] \<and> set e \<subseteq> set ''0123456789+-*/()'')
   \<and> (\<forall>t. regexFree t \<and> callFree t \<longrightarrow> (\<exists>x. evalAst h t = Some (JNum x)))
   \<and> (\<forall>t. \<not> callFree t \<longrightarrow> evalAst h t = None)"
proof (intro conjI allI impI)
  show "safeEval h e = (if safeChars e then newFunctionReturn h e else Inl (Error ''Unsafe expression''))"
    by (simp add: safeEval_def)
  have ap: "''0123456789+-*/()'' = ''0123456789'' @ ''+-*/()''" by simp
  show "safeChars e \<longleftrightarrow> e \<noteq> [] \<and> set e \<subseteq> set ''0123456789+-*/()''"
    unfolding safeChars_def list_all_iff isDigit_def isOpChar_def ap set_append by blast
next
  fix t assume "regexFree t \<and> callFree t"
  then show "\<exists>x. evalAst h t = Some (JNum x)" using evalAst_arithmetic by blast
next
  fix t assume "\<not> callFree t"
  then show "evalAst h t = None" by (rule evalAst_call)
qed

theorem safeEval_delegates_witness:
  "safeEval refHost ''3+4*2'' = newFunctionReturn refHost ''3+4*2''
   \<and> regexFree (Bin Add (Lit 3) (Bin Mul (Lit 4) (Lit 2)))
   \<and> callFree (Bin Add (Lit 3) (Bin Mul (Lit 4) (Lit 2)))
   \<and> (\<exists>x. evalAst refHost (Bin Add (Lit 3) (Bin Mul (Lit 4) (Lit 2))) = Some (JNum x))
   \<and> evalAst refHost (Call1 (Lit 1) (Lit 2)) = None"
proof -
  have c: "safeChars ''3+4*2''" by (simp add: safeChars_def isDigit_def isOpChar_def)
  have r: "regexFree (Bin Add (Lit 3) (Bin Mul (Lit 4) (Lit 2)))"
    "callFree (Bin Add (Lit 3) (Bin Mul (Lit 4) (Lit 2)))" "\<not> callFree (Call1 (Lit 1) (Lit 2))"
    by simp_all
  from safeEval_delegates [of refHost "''3+4*2''"] c r show ?thesis by (simp only: if_True) blast
qed


section \<open>The expression generator\<close>

lemma shuffleLoop_mset:
  "k < length xs \<Longrightarrow> length xs < 2 ^ 53 \<Longrightarrow> mset (fst (shuffleLoop k xs s)) = mset xs"
proof (induction k arbitrary: xs s)
  case 0
  show ?case by simp
next
  case (Suc k)
  obtain r s' where mr: "mathRandom s = (r, s')" by (cases "mathRandom s")
  let ?i = "Suc k"
  let ?j = "nat (jsToInt (jfloor (jmul r (ofInt (int ?i + 1)))))"
  have k53: "int ?i + 1 < 2 ^ 53" using Suc.prems by simp
  have "0 < int ?i + 1" by simp
  from floorDraw_range [OF this k53 mr]
  have j: "?j < length xs" using Suc.prems(1) by simp
  let ?ys = "xs[?i := xs ! ?j, ?j := xs ! ?i]"
  have m: "mset ?ys = mset xs" using mset_swap [OF j Suc.prems(1)] by simp
  have "mset (fst (shuffleLoop k ?ys s')) = mset ?ys"
    using Suc.prems by (intro Suc.IH) simp_all
  then show ?case using m by (simp add: mr Let_def)
qed

lemma shuffleArray_mset: "length xs < 2 ^ 53 \<Longrightarrow> mset (fst (shuffleArray xs s)) = mset xs"
proof (cases xs)
  case Nil
  then show ?thesis by (simp add: shuffleArray_def)
next
  case (Cons x xs')
  assume "length xs < 2 ^ 53"
  then show ?thesis unfolding shuffleArray_def using Cons by (intro shuffleLoop_mset) simp_all
qed


lemma shuffleArray_set: "length xs < 2 ^ 53 \<Longrightarrow> set (fst (shuffleArray xs s)) = set xs"
  using shuffleArray_mset [of xs s] by (metis set_mset_mset)








text \<open>A run on the numbers 3 and 4: the draws 0, 1/2 and 0 pick the two items and their order.\<close>

lemma mathRandom_Cons: "mathRandom (d ## s) = (Fin False (of_nat (d mod 2 ^ 53) / 2 ^ 53), s)"
  by (simp add: mathRandom_def)


lemma randInt_zero: "0 \<le> b - a + 1 \<Longrightarrow> b - a + 1 < 2 ^ 53 \<Longrightarrow> randInt a b (0 ## s) = (a, s)"
  by (simp add: randInt_def mathRandom_Cons ofInt_small sval_def toDouble_def)

lemma randInt_half: "randInt 0 1 (4503599627370496 ## s) = (1, s)"
proof -
  have "mathRandom (4503599627370496 ## s) = (Fin False (1 / 2), s)" by (simp add: mathRandom_Cons)
  moreover have "ofInt 2 = Fin False 2" using ofInt_small [of 2] by simp
  moreover have "toDouble False 1 = Fin False 1" using toDouble_int [of 1 False] by simp
  ultimately show ?thesis by (simp add: randInt_def sval_def)
qed









lemma zeroDraw: "nat (jsToInt (jfloor (jmul (Fin False 0) (ofInt (int i + 1))))) = 0"
proof (cases "ofInt (int i + 1)")
  case (Fin t b)
  then show ?thesis by (simp add: toDouble_zero sval_def)
qed simp_all















section \<open>The round generator\<close>

text \<open>The state \<open>newRound\<close> leaves when it accepts the expression \<open>e\<close> with rounded value
  \<open>v\<close>, and the state of the fallback, for a pool \<open>p\<close>.\<close>

lemma roundLoop_unfold:
  "roundLoop h fuel tries level cnt st s =
     (if tries < ATTEMPT_LIMIT then
        (case attempt h fuel level cnt s of
           None \<Rightarrow> None
         | Some (Inl e, s3) \<Rightarrow> Some (Inl e, s3)
         | Some (Inr e, s3) \<Rightarrow>
             (case acceptValue h e of
                None \<Rightarrow> roundLoop h fuel (tries + 1) level cnt st s3
              | Some rounded \<Rightarrow>
                  Some (Inr (acceptedState st e rounded cnt (fst (poolFor h e s3))), snd (poolFor h e s3))))
      else Some (Inr (fallbackState st (fst (poolFor h fallbackExpr s))), snd (poolFor h fallbackExpr s)))"
  by (subst roundLoop.simps)
     (simp add: acceptedState_def fallbackState_def poolFor_def split: prod.splits option.splits sum.splits)

lemma roundLoop_cases:
  "roundLoop h fuel tries level cnt st s = Some (Inr st', s') \<Longrightarrow>
     (\<exists>k sk e s3 v. tries + k < ATTEMPT_LIMIT
         \<and> rejected h fuel level cnt k s = Some sk
         \<and> attempt h fuel level cnt sk = Some (Inr e, s3)
         \<and> acceptValue h e = Some v
         \<and> st' = acceptedState st e v cnt (fst (poolFor h e s3))
         \<and> s' = snd (poolFor h e s3))
   \<or> (\<exists>sn. rejected h fuel level cnt (ATTEMPT_LIMIT - tries) s = Some sn
         \<and> st' = fallbackState st (fst (poolFor h fallbackExpr sn))
         \<and> s' = snd (poolFor h fallbackExpr sn))"
proof (induction h fuel tries level cnt st s rule: roundLoop.induct)
  case (1 h fuel tries level cnt st s)
  show ?case
  proof (cases "tries < ATTEMPT_LIMIT")
    case False
    then have z: "ATTEMPT_LIMIT - tries = 0" by simp
    from "1.prems" False
    have "st' = fallbackState st (fst (poolFor h fallbackExpr s)) \<and> s' = snd (poolFor h fallbackExpr s)"
      by (subst (asm) roundLoop_unfold) auto
    then show ?thesis unfolding z by simp
  next
    case True
    from "1.prems" True obtain r s3 where at: "attempt h fuel level cnt s = Some (r, s3)"
      by (subst (asm) roundLoop_unfold) (auto split: option.splits)
    from "1.prems" True at obtain e where r: "r = Inr e"
      by (subst (asm) roundLoop_unfold) (cases r, auto)
    note at' = at [unfolded r]
    show ?thesis
    proof (cases "acceptValue h e")
      case None
      have run: "roundLoop h fuel (tries + 1) level cnt st s3 = Some (Inr st', s')"
        using "1.prems" True by (subst (asm) roundLoop_unfold) (simp add: at r None)
      have step: "rejected h fuel level cnt (Suc n) s = rejected h fuel level cnt n s3" for n
        by (simp add: at' None)
      from "1.IH" [OF True at' refl refl None run]
      show ?thesis
      proof
        assume "\<exists>k sk e s3a v. tries + 1 + k < ATTEMPT_LIMIT
           \<and> rejected h fuel level cnt k s3 = Some sk
           \<and> attempt h fuel level cnt sk = Some (Inr e, s3a)
           \<and> acceptValue h e = Some v
           \<and> st' = acceptedState st e v cnt (fst (poolFor h e s3a))
           \<and> s' = snd (poolFor h e s3a)"
        then obtain k sk e' s3a v where k: "tries + 1 + k < ATTEMPT_LIMIT"
          and rest: "rejected h fuel level cnt k s3 = Some sk"
            "attempt h fuel level cnt sk = Some (Inr e', s3a)" "acceptValue h e' = Some v"
            "st' = acceptedState st e' v cnt (fst (poolFor h e' s3a))" "s' = snd (poolFor h e' s3a)"
          by blast
        have "tries + Suc k < ATTEMPT_LIMIT" using k by simp
        moreover have "rejected h fuel level cnt (Suc k) s = Some sk" using rest(1) step by simp
        ultimately show ?thesis using rest(2-5) by blast
      next
        assume "\<exists>sn. rejected h fuel level cnt (ATTEMPT_LIMIT - (tries + 1)) s3 = Some sn
           \<and> st' = fallbackState st (fst (poolFor h fallbackExpr sn))
           \<and> s' = snd (poolFor h fallbackExpr sn)"
        then obtain sn where sn: "rejected h fuel level cnt (ATTEMPT_LIMIT - (tries + 1)) s3 = Some sn"
          "st' = fallbackState st (fst (poolFor h fallbackExpr sn))"
          "s' = snd (poolFor h fallbackExpr sn)" by blast
        have "ATTEMPT_LIMIT - tries = Suc (ATTEMPT_LIMIT - (tries + 1))" using True by simp
        then have "rejected h fuel level cnt (ATTEMPT_LIMIT - tries) s = Some sn"
          using sn(1) step by simp
        then show ?thesis using sn(2,3) by blast
      qed
    next
      case (Some v)
      have "st' = acceptedState st e v cnt (fst (poolFor h e s3)) \<and> s' = snd (poolFor h e s3)"
        using "1.prems" True by (subst (asm) roundLoop_unfold) (simp add: at r Some)
      moreover have "rejected h fuel level cnt 0 s = Some s" by simp
      moreover have "tries + 0 < ATTEMPT_LIMIT" using True by simp
      ultimately show ?thesis using at' Some by blast
    qed
  qed
qed

lemma roundLoop_accepted:
  "rejected h fuel level cnt k s = Some sk \<Longrightarrow> tries + k < ATTEMPT_LIMIT \<Longrightarrow>
   attempt h fuel level cnt sk = Some (Inr e, s3) \<Longrightarrow> acceptValue h e = Some v \<Longrightarrow>
   roundLoop h fuel tries level cnt st s
     = Some (Inr (acceptedState st e v cnt (fst (poolFor h e s3))), snd (poolFor h e s3))"
proof (induction k arbitrary: tries s)
  case 0
  then show ?case by (subst roundLoop_unfold) simp
next
  case (Suc k)
  from Suc.prems(1) obtain e0 s0 where at: "attempt h fuel level cnt s = Some (Inr e0, s0)"
    and rej: "acceptValue h e0 = None" and rest: "rejected h fuel level cnt k s0 = Some sk"
    by (auto split: option.splits sum.splits prod.splits if_splits)
  have lt: "tries < ATTEMPT_LIMIT" "tries + 1 + k < ATTEMPT_LIMIT" using Suc.prems(2) by simp_all
  from Suc.IH [OF rest lt(2) Suc.prems(3) Suc.prems(4)]
  show ?case using lt(1) by (subst roundLoop_unfold) (simp add: at rej)
qed

lemma roundLoop_rejected:
  "rejected h fuel level cnt n s = Some sn \<Longrightarrow> tries + n = ATTEMPT_LIMIT \<Longrightarrow>
   roundLoop h fuel tries level cnt st s
     = Some (Inr (fallbackState st (fst (poolFor h fallbackExpr sn))), snd (poolFor h fallbackExpr sn))"
proof (induction n arbitrary: tries s)
  case 0
  then show ?case by (subst roundLoop_unfold) simp
next
  case (Suc n)
  from Suc.prems(1) obtain e s3 where at: "attempt h fuel level cnt s = Some (Inr e, s3)"
    and rej: "acceptValue h e = None" and rest: "rejected h fuel level cnt n s3 = Some sn"
    by (auto split: option.splits sum.splits prod.splits if_splits)
  have lt: "tries < ATTEMPT_LIMIT" using Suc.prems(2) by simp
  have "roundLoop h fuel (tries + 1) level cnt st s3
     = Some (Inr (fallbackState st (fst (poolFor h fallbackExpr sn))), snd (poolFor h fallbackExpr sn))"
    using Suc.prems(2) by (intro Suc.IH [OF rest]) simp
  then show ?case using lt by (subst roundLoop_unfold) (simp add: at rej)
qed


lemma acceptValue_iff:
  "acceptValue h e = Some v \<longleftrightarrow>
     (\<exists>x. safeEval h e = Inr (JNum x) \<and> isFiniteNum x
        \<and> \<not> jgreater (jabs (jsub x (jround x))) eps9
        \<and> \<not> jgreater (jabs (jround x)) (ofInt 1000)
        \<and> v = jround x)"
proof (cases "safeEval h e")
  case (Inl err)
  then show ?thesis by (simp add: acceptValue_def)
next
  case (Inr val)
  show ?thesis
  proof (cases val)
    case (JNum x)
    then show ?thesis using Inr by (auto simp: acceptValue_def)
  qed (simp_all add: acceptValue_def Inr)
qed

lemma jround_bounded:
  assumes "isFiniteNum x" "\<not> jgreater (jabs (jround x)) (ofInt 1000)"
  shows "\<exists>sg k. jround x = Fin sg (of_int k) \<and> 0 \<le> k \<and> k \<le> 1000"
proof -
  from assms(1) obtain s m where x: "x = Fin s m" by (cases x) auto
  define r where "r = \<lfloor>sval s m + 1 / 2\<rfloor>"
  have jr: "jround x = Fin (r < 0 \<or> (r = 0 \<and> (s \<or> sval s m < 0))) (of_int \<bar>r\<bar>)"
    by (simp add: x jround.simps Let_def r_def)
  have k: "ofInt 1000 = Fin False (of_int 1000)" by (rule ofInt_small) simp_all
  have "\<not> (of_int 1000 :: rat) < of_int \<bar>r\<bar>"
    using assms(2) unfolding jr k by (simp add: jgreater_def sval_def)
  then have "\<bar>r\<bar> \<le> 1000" by (simp only: of_int_less_iff not_less)
  then show ?thesis using jr by (intro exI [of _ "\<bar>r\<bar>"] exI conjI) simp_all
qed

lemma tokenize_fallback: "tokenize fallbackExpr = [''('', ''3'', ''+'', ''4'', '')'', ''*'', ''2'']"
  by (simp add: fallbackExpr_def isDigit_def isOpChar_def)

lemma fallbackTarget_val: "fallbackTarget = Fin False 14"
  using ofInt_small [of 14] by (simp add: fallbackTarget_def)

lemma safeEval_fallback: "safeEval h fallbackExpr = Inr (JNum (Fin False 14))"
  by (simp add: fallbackExpr_def js_eval)

lemma fallback_accepted: "acceptValue h fallbackExpr = Some (Fin False 14)"
proof -
  have k: "ofInt 1000 = Fin False 1000" using ofInt_small [of 1000] by simp
  have "\<not> jgreater (jabs (jsub (Fin False 14) (jround (Fin False 14)))) eps9"
    by (rule whole_numeral)
  then show ?thesis
    by (simp add: acceptValue_def safeEval_fallback jround_numeral k jgreater_def sval_def)
qed

lemma freshTokens_fresh:
  "map token (fst (freshTokens h ts s)) = ts \<and> (\<forall>t \<in> set (fst (freshTokens h ts s)). \<not> used t)"
proof (induction ts arbitrary: s)
  case Nil
  show ?case by simp
next
  case (Cons t ts)
  obtain i s' where g: "genId h s = (i, s')" by (cases "genId h s")
  obtain xs s'' where f: "freshTokens h ts s' = (xs, s'')" by (cases "freshTokens h ts s'")
  from Cons [of s'] show ?case by (simp add: g f)
qed

lemma poolFor_fresh:
  assumes "length (tokenize e) < 2 ^ 53"
  shows "mset (map token (fst (poolFor h e s))) = mset (tokenize e)
       \<and> (\<forall>t \<in> set (fst (poolFor h e s)). \<not> used t)"
proof -
  obtain av s4 where f: "freshTokens h (tokenize e) s = (av, s4)"
    by (cases "freshTokens h (tokenize e) s")
  from freshTokens_fresh [of h "tokenize e" s]
  have tx: "map token av = tokenize e" and un: "\<forall>t \<in> set av. \<not> used t" by (simp_all add: f)
  have "length av = length (tokenize e)" using tx by (metis length_map)
  then have lt: "length av < 2 ^ 53" using assms by simp
  have m: "mset (fst (shuffleArray av s4)) = mset av" by (rule shuffleArray_mset [OF lt])
  have "mset (map token (fst (shuffleArray av s4))) = mset (map token av)"
    using m by (metis mset_map)
  moreover have "set (fst (shuffleArray av s4)) = set av" by (rule shuffleArray_set [OF lt])
  ultimately show ?thesis using tx un by (simp add: poolFor_def f)
qed



text \<open>
  Six draws that make an attempt on two numbers build \<open>(1/2)\<close>: the numbers 1 and 2, the
  operator \<open>/\<close>, the items 0 and 1, the left one first. Its value is not whole, so the attempt
  is rejected, and a stream that repeats the six draws is rejected as often as one likes.
\<close>

definition rejectingDraws :: "nat list" where
  "rejectingDraws = [0, 4503599627370496, 9007199254740991, 0, 4503599627370496, 0]"

lemma randInt_half3: "randInt 1 3 (4503599627370496 ## s) = (2, s)"
proof -
  have "mathRandom (4503599627370496 ## s) = (Fin False (1 / 2), s)" by (simp add: mathRandom_Cons)
  moreover have "jmul (Fin False (1 / 2)) (ofInt 3) = Fin False (3 / 2)" by code_simp
  moreover have "\<lfloor>3 / 2 :: rat\<rfloor> = 1" by linarith
  ultimately show ?thesis by (simp add: randInt_def sval_def)
qed

lemma divide_drawn:
  "getWeightedRandomOperator (getOperatorWeights 1) (9007199254740991 ## s) = (''/'', s)"
proof -
  have "mathRandom (9007199254740991 ## s)
      = (Fin False (9007199254740991 / 9007199254740992), s)" by (simp add: mathRandom_Cons)
  moreover have "weightedLoop (Fin False (9007199254740991 / 9007199254740992)) (Fin False 0)
      (getOperatorWeights 1) = ''/''" by code_simp
  ultimately show ?thesis by (simp add: getWeightedRandomOperator_def)
qed

lemma jsString_small: "jsString 1 = ''1''" "jsString 2 = ''2''"
  by code_simp+

lemma safeEval_1d2: "safeEval h ''(1/2)'' = Inr (JNum (Fin False (1 / 2)))"
  by code_simp

lemma half_rejected: "acceptValue refHost ''(1/2)'' = None"
  by code_simp

lemma one_accepted: "acceptValue refHost ''1'' = Some (Fin False 1)"
  by code_simp

lemma reduce_1_2:
  "reduceStep h 0 [\<lparr>expr = ''1'', itemValue = x\<rparr>, \<lparr>expr = ''2'', itemValue = y\<rparr>] [''/'']
     (0 ## 4503599627370496 ## 0 ## s)
   = Some (True, [\<lparr>expr = ''(1/2)'', itemValue = Fin False (1 / 2)\<rparr>], [], s)"
proof -
  have r0: "randInt 0 1 (0 ## 4503599627370496 ## 0 ## s) = (0, 4503599627370496 ## 0 ## s)"
    by (rule randInt_zero) simp_all
  show ?thesis
    by (simp add: reduceStep_def r0 randInt_half nextOp_def mathRandom_Cons sval_def evalFinite_def
          safeEval_1d2 removeAt_def shuffleArray_def)
qed

lemma attempt_rejecting:
  "attempt h 1 1 2 (rejectingDraws @- s) = Some (Inr ''(1/2)'', s)"
proof -
  have n1: "randInt 1 3 (0 ## t) = (1, t)" for t by (rule randInt_zero) simp_all
  have two: "nat 2 = Suc (Suc 0)" "nat (2 - 1) = Suc 0" by simp_all
  show ?thesis
    unfolding attempt_def rejectingDraws_def two
    by (simp add: n1 randInt_half3 divide_drawn buildRandomExpr_def jsString_small reduce_1_2
          firstExpr_def)
qed

lemma rejected_cycle:
  "rejected refHost 1 1 2 n (cycle rejectingDraws) = Some (cycle rejectingDraws)"
proof (induction n)
  case 0
  show ?case by simp
next
  case (Suc n)
  have ne: "rejectingDraws \<noteq> []" by (simp add: rejectingDraws_def)
  have "attempt refHost 1 1 2 (cycle rejectingDraws) = Some (Inr ''(1/2)'', cycle rejectingDraws)"
    using attempt_rejecting [of refHost "cycle rejectingDraws"] cycle_decomp [OF ne] by simp
  then show ?case using Suc by (simp add: half_rejected)
qed

lemma attempt_one: "attempt h 0 1 1 (0 ## s) = Some (Inr ''1'', s)"
proof -
  have n1: "randInt 1 3 (0 ## t) = (1, t)" for t by (rule randInt_zero) simp_all
  have one: "nat 1 = Suc 0" by simp
  show ?thesis
    unfolding attempt_def one
    by (simp add: n1 buildRandomExpr_def jsString_small firstExpr_def)
qed

text \<open>
  Claim C3. At every level: \<open>newRound\<close> accepts an expression exactly when its value is a
  finite number that is not more than \<open>1e-9\<close> away from its rounding and whose rounding is
  not more than 1000 in absolute value; the accepted target is that rounding, an integer
  between -1000 and 1000. A puzzle that \<open>newRound\<close> emits is either the first accepted
  expression, built by one of the 400 attempts after all the attempts before it were
  rejected, or the fallback \<open>(3+4)*2\<close> with target 14 after 400 rejected attempts; and in
  both situations \<open>newRound\<close> does emit that puzzle. The fallback comes with its seven
  tokens in a pool of unused tokens, and it passes the tests itself.
\<close>

theorem newRound_accepts:
  fixes h :: host and fuel :: nat and numCount :: "int option" and st :: state and s :: rng
  defines "L \<equiv> currentLevel st" and "cnt \<equiv> tokenCount numCount (currentLevel st)"
  shows
   "(\<forall>e v. acceptValue h e = Some v \<longleftrightarrow>
        (\<exists>x. safeEval h e = Inr (JNum x) \<and> isFiniteNum x
           \<and> \<not> jgreater (jabs (jsub x (jround x))) eps9
           \<and> \<not> jgreater (jabs (jround x)) (ofInt 1000)
           \<and> v = jround x))
  \<and> (\<forall>e v. acceptValue h e = Some v \<longrightarrow>
        (\<exists>sg k. v = Fin sg (of_int k) \<and> 0 \<le> k \<and> k \<le> 1000))
  \<and> (\<forall>st' s'. newRound h fuel numCount st s = Some (Inr st', s') \<longrightarrow>
        (\<exists>k sk s3 v. k < ATTEMPT_LIMIT
            \<and> rejected h fuel L cnt k s = Some sk
            \<and> attempt h fuel L cnt sk = Some (Inr (originalExpr st'), s3)
            \<and> acceptValue h (originalExpr st') = Some v
            \<and> targetValue st' = Some v
            \<and> originalTokens st' = tokenize (originalExpr st'))
      \<or> (\<exists>sn. rejected h fuel L cnt ATTEMPT_LIMIT s = Some sn
            \<and> originalExpr st' = ''(3+4)*2''
            \<and> targetValue st' = Some (Fin False 14)
            \<and> originalTokens st' = [''('', ''3'', ''+'', ''4'', '')'', ''*'', ''2'']))
  \<and> (\<forall>k sk e s3 v. k < ATTEMPT_LIMIT
          \<and> rejected h fuel L cnt k s = Some sk
          \<and> attempt h fuel L cnt sk = Some (Inr e, s3)
          \<and> acceptValue h e = Some v \<longrightarrow>
        (\<exists>st' s'. newRound h fuel numCount st s = Some (Inr st', s')
            \<and> originalExpr st' = e \<and> targetValue st' = Some v
            \<and> originalTokens st' = tokenize e))
  \<and> (\<forall>sn. rejected h fuel L cnt ATTEMPT_LIMIT s = Some sn \<longrightarrow>
        (\<exists>st' s'. newRound h fuel numCount st s = Some (Inr st', s')
            \<and> originalExpr st' = ''(3+4)*2''
            \<and> targetValue st' = Some (Fin False 14)
            \<and> originalTokens st' = [''('', ''3'', ''+'', ''4'', '')'', ''*'', ''2'']
            \<and> mset (map token (availableTokens st')) = mset [''('', ''3'', ''+'', ''4'', '')'', ''*'', ''2'']
            \<and> (\<forall>t \<in> set (availableTokens st'). \<not> used t)
            \<and> equationTokens st' = []))
  \<and> acceptValue h ''(3+4)*2'' = Some (Fin False 14)
  \<and> ATTEMPT_LIMIT = 400"
proof -
  let ?st0 = "st\<lparr> timeLeft := getTimerDurationForLevel (currentLevel st), equationTokens := [],
                    solutionVisible := False, hint := None, activePopup := None \<rparr>"
  have nr: "newRound h fuel numCount st s = roundLoop h fuel 0 L cnt ?st0 s"
    by (simp add: newRound_def Let_def L_def cnt_def)
  have fe: "fallbackExpr = ''(3+4)*2''" by (simp add: fallbackExpr_def)
  have c1: "\<forall>e v. acceptValue h e = Some v \<longleftrightarrow>
        (\<exists>x. safeEval h e = Inr (JNum x) \<and> isFiniteNum x
           \<and> \<not> jgreater (jabs (jsub x (jround x))) eps9
           \<and> \<not> jgreater (jabs (jround x)) (ofInt 1000)
           \<and> v = jround x)"
    using acceptValue_iff by blast
  have c2: "\<forall>e v. acceptValue h e = Some v \<longrightarrow>
        (\<exists>sg k. v = Fin sg (of_int k) \<and> 0 \<le> k \<and> k \<le> 1000)"
  proof (intro allI impI)
    fix e v assume "acceptValue h e = Some v"
    then obtain x where x: "isFiniteNum x" "\<not> jgreater (jabs (jround x)) (ofInt 1000)" "v = jround x"
      unfolding acceptValue_iff by blast
    from jround_bounded [OF x(1) x(2)] show "\<exists>sg k. v = Fin sg (of_int k) \<and> 0 \<le> k \<and> k \<le> 1000"
      by (simp only: x(3))
  qed
  have c3: "\<forall>st' s'. newRound h fuel numCount st s = Some (Inr st', s') \<longrightarrow>
        (\<exists>k sk s3 v. k < ATTEMPT_LIMIT
            \<and> rejected h fuel L cnt k s = Some sk
            \<and> attempt h fuel L cnt sk = Some (Inr (originalExpr st'), s3)
            \<and> acceptValue h (originalExpr st') = Some v
            \<and> targetValue st' = Some v
            \<and> originalTokens st' = tokenize (originalExpr st'))
      \<or> (\<exists>sn. rejected h fuel L cnt ATTEMPT_LIMIT s = Some sn
            \<and> originalExpr st' = ''(3+4)*2''
            \<and> targetValue st' = Some (Fin False 14)
            \<and> originalTokens st' = [''('', ''3'', ''+'', ''4'', '')'', ''*'', ''2''])"
  proof (intro allI impI)
    fix st' s' assume "newRound h fuel numCount st s = Some (Inr st', s')"
    then have run: "roundLoop h fuel 0 L cnt ?st0 s = Some (Inr st', s')" by (simp only: nr)
    from roundLoop_cases [OF run]
    show "(\<exists>k sk s3 v. k < ATTEMPT_LIMIT
            \<and> rejected h fuel L cnt k s = Some sk
            \<and> attempt h fuel L cnt sk = Some (Inr (originalExpr st'), s3)
            \<and> acceptValue h (originalExpr st') = Some v
            \<and> targetValue st' = Some v
            \<and> originalTokens st' = tokenize (originalExpr st'))
      \<or> (\<exists>sn. rejected h fuel L cnt ATTEMPT_LIMIT s = Some sn
            \<and> originalExpr st' = ''(3+4)*2''
            \<and> targetValue st' = Some (Fin False 14)
            \<and> originalTokens st' = [''('', ''3'', ''+'', ''4'', '')'', ''*'', ''2''])"
    proof
      assume "\<exists>k sk e s3 v. 0 + k < ATTEMPT_LIMIT
         \<and> rejected h fuel L cnt k s = Some sk
         \<and> attempt h fuel L cnt sk = Some (Inr e, s3)
         \<and> acceptValue h e = Some v
         \<and> st' = acceptedState ?st0 e v cnt (fst (poolFor h e s3))
         \<and> s' = snd (poolFor h e s3)"
      then obtain k sk e s3 v where k: "k < ATTEMPT_LIMIT"
        and a: "rejected h fuel L cnt k s = Some sk" "attempt h fuel L cnt sk = Some (Inr e, s3)"
          "acceptValue h e = Some v"
        and st': "st' = acceptedState ?st0 e v cnt (fst (poolFor h e s3))"
        by auto
      have "originalExpr st' = e" "targetValue st' = Some v" "originalTokens st' = tokenize e"
        by (simp_all add: st' acceptedState_def)
      with k a show ?thesis by blast
    next
      assume "\<exists>sn. rejected h fuel L cnt (ATTEMPT_LIMIT - 0) s = Some sn
         \<and> st' = fallbackState ?st0 (fst (poolFor h fallbackExpr sn))
         \<and> s' = snd (poolFor h fallbackExpr sn)"
      then obtain sn where a: "rejected h fuel L cnt ATTEMPT_LIMIT s = Some sn"
        and st': "st' = fallbackState ?st0 (fst (poolFor h fallbackExpr sn))" by auto
      have "originalExpr st' = ''(3+4)*2''" "targetValue st' = Some (Fin False 14)"
        "originalTokens st' = [''('', ''3'', ''+'', ''4'', '')'', ''*'', ''2'']"
        by (simp_all add: st' fallbackState_def fallbackTarget_val fallbackExpr_def isDigit_def
              isOpChar_def)
      with a show ?thesis by blast
    qed
  qed
  have c4: "\<forall>k sk e s3 v. k < ATTEMPT_LIMIT
          \<and> rejected h fuel L cnt k s = Some sk
          \<and> attempt h fuel L cnt sk = Some (Inr e, s3)
          \<and> acceptValue h e = Some v \<longrightarrow>
        (\<exists>st' s'. newRound h fuel numCount st s = Some (Inr st', s')
            \<and> originalExpr st' = e \<and> targetValue st' = Some v
            \<and> originalTokens st' = tokenize e)"
  proof (intro allI impI)
    fix k sk e s3 v
    assume a: "k < ATTEMPT_LIMIT
          \<and> rejected h fuel L cnt k s = Some sk
          \<and> attempt h fuel L cnt sk = Some (Inr e, s3)
          \<and> acceptValue h e = Some v"
    then have k: "0 + k < ATTEMPT_LIMIT" by simp
    from a have r: "rejected h fuel L cnt k s = Some sk"
      and at: "attempt h fuel L cnt sk = Some (Inr e, s3)" and ac: "acceptValue h e = Some v"
      by simp_all
    have run: "newRound h fuel numCount st s
        = Some (Inr (acceptedState ?st0 e v cnt (fst (poolFor h e s3))), snd (poolFor h e s3))"
      unfolding nr by (rule roundLoop_accepted [OF r k at ac])
    show "\<exists>st' s'. newRound h fuel numCount st s = Some (Inr st', s')
            \<and> originalExpr st' = e \<and> targetValue st' = Some v
            \<and> originalTokens st' = tokenize e"
      by (intro exI conjI, rule run) (simp_all add: acceptedState_def)
  qed
  have c5: "\<forall>sn. rejected h fuel L cnt ATTEMPT_LIMIT s = Some sn \<longrightarrow>
        (\<exists>st' s'. newRound h fuel numCount st s = Some (Inr st', s')
            \<and> originalExpr st' = ''(3+4)*2''
            \<and> targetValue st' = Some (Fin False 14)
            \<and> originalTokens st' = [''('', ''3'', ''+'', ''4'', '')'', ''*'', ''2'']
            \<and> mset (map token (availableTokens st')) = mset [''('', ''3'', ''+'', ''4'', '')'', ''*'', ''2'']
            \<and> (\<forall>t \<in> set (availableTokens st'). \<not> used t)
            \<and> equationTokens st' = [])"
  proof (intro allI impI)
    fix sn
    let ?p = "fst (poolFor h fallbackExpr sn)"
    assume r: "rejected h fuel L cnt ATTEMPT_LIMIT s = Some sn"
    have run: "newRound h fuel numCount st s
        = Some (Inr (fallbackState ?st0 ?p), snd (poolFor h fallbackExpr sn))"
      unfolding nr by (rule roundLoop_rejected [OF r]) simp
    have "length (tokenize fallbackExpr) < 2 ^ 53" by (simp add: tokenize_fallback)
    from poolFor_fresh [OF this, of h sn]
    have pool: "mset (map token ?p) = mset [''('', ''3'', ''+'', ''4'', '')'', ''*'', ''2'']"
      "\<forall>t \<in> set ?p. \<not> used t" by (simp_all add: tokenize_fallback)
    show "\<exists>st' s'. newRound h fuel numCount st s = Some (Inr st', s')
            \<and> originalExpr st' = ''(3+4)*2''
            \<and> targetValue st' = Some (Fin False 14)
            \<and> originalTokens st' = [''('', ''3'', ''+'', ''4'', '')'', ''*'', ''2'']
            \<and> mset (map token (availableTokens st')) = mset [''('', ''3'', ''+'', ''4'', '')'', ''*'', ''2'']
            \<and> (\<forall>t \<in> set (availableTokens st'). \<not> used t)
            \<and> equationTokens st' = []"
      using pool
      by (intro exI [of _ "fallbackState ?st0 ?p"] exI [of _ "snd (poolFor h fallbackExpr sn)"] conjI run)
         (simp_all add: fallbackState_def fallbackTarget_val fallbackExpr_def isDigit_def
            isOpChar_def)
  qed
  have c6: "acceptValue h ''(3+4)*2'' = Some (Fin False 14)"
    using fallback_accepted [of h] by (simp only: fe)
  have c7: "ATTEMPT_LIMIT = 400" by (simp add: ATTEMPT_LIMIT_def)
  from c1 c2 c3 c4 c5 c6 c7 show ?thesis by (intro conjI)
qed

theorem newRound_accepts_witness:
  "rejected refHost 1 1 2 ATTEMPT_LIMIT (cycle rejectingDraws) = Some (cycle rejectingDraws)
   \<and> (\<exists>st' s'. newRound refHost 1 (Some 2) initialState (cycle rejectingDraws) = Some (Inr st', s')
         \<and> originalExpr st' = ''(3+4)*2''
         \<and> targetValue st' = Some (Fin False 14)
         \<and> originalTokens st' = [''('', ''3'', ''+'', ''4'', '')'', ''*'', ''2''])
   \<and> attempt refHost 0 1 1 (sconst 0) = Some (Inr ''1'', sconst 0)
   \<and> acceptValue refHost ''1'' = Some (Fin False 1)
   \<and> (\<exists>st' s'. newRound refHost 0 (Some 1) initialState (sconst 0) = Some (Inr st', s')
         \<and> originalExpr st' = ''1''
         \<and> targetValue st' = Some (Fin False 1))"
proof -
  have p: "currentLevel initialState = 1" "tokenCount (Some 2) 1 = 2" "tokenCount (Some 1) 1 = 1"
    by (simp_all add: initialState_def tokenCount_def)
  have r: "rejected refHost 1 1 2 ATTEMPT_LIMIT (cycle rejectingDraws) = Some (cycle rejectingDraws)"
    by (rule rejected_cycle)
  have sc: "sconst (0::nat) = 0 ## sconst 0" by (rule stream.expand) simp
  have a: "attempt refHost 0 1 1 (sconst 0) = Some (Inr ''1'', sconst 0)"
    by (subst sc) (rule attempt_one)
  have k: "(0::nat) < ATTEMPT_LIMIT" "rejected refHost 0 1 1 0 (sconst 0) = Some (sconst 0)"
    by (simp_all add: ATTEMPT_LIMIT_def)
  from newRound_accepts [where h = refHost and fuel = 1 and numCount = "Some 2"
        and st = initialState and s = "cycle rejectingDraws"] r
  have f: "\<exists>st' s'. newRound refHost 1 (Some 2) initialState (cycle rejectingDraws) = Some (Inr st', s')
         \<and> originalExpr st' = ''(3+4)*2''
         \<and> targetValue st' = Some (Fin False 14)
         \<and> originalTokens st' = [''('', ''3'', ''+'', ''4'', '')'', ''*'', ''2'']"
    unfolding p by blast
  from newRound_accepts [where h = refHost and fuel = 0 and numCount = "Some 1"
        and st = initialState and s = "sconst 0"] a one_accepted k
  have g: "\<exists>st' s'. newRound refHost 0 (Some 1) initialState (sconst 0) = Some (Inr st', s')
         \<and> originalExpr st' = ''1''
         \<and> targetValue st' = Some (Fin False 1)"
    unfolding p by blast
  from r f a one_accepted g show ?thesis by (intro conjI)
qed


section \<open>The equation builder\<close>

text \<open>The invariant of the builder: distinct ids, the equation holds exactly the used
  pool tokens, and the pool holds the puzzle's tokens.\<close>

definition conserved :: "state \<Rightarrow> bool" where
  "conserved st \<longleftrightarrow>
     distinct (map tokId (availableTokens st))
   \<and> mset (equationTokens st) = image_mset refOf (filter_mset used (mset (availableTokens st)))
   \<and> mset (map token (availableTokens st)) = mset (originalTokens st)"

text \<open>A freshly built pool for the puzzle \<open>3+4\<close>.\<close>

definition freshExample :: state where
  "freshExample =
     initialState\<lparr> originalExpr := ''3+4'', originalTokens := [''3'', ''+'', ''4''],
                   targetValue := Some (Fin False 7),
                   availableTokens :=
                     [\<lparr>tokId = ''a'', token = ''+'', used = False\<rparr>,
                      \<lparr>tokId = ''b'', token = ''4'', used = False\<rparr>,
                      \<lparr>tokId = ''c'', token = ''3'', used = False\<rparr>] \<rparr>"

lemma unmark_same_id:
  assumes d: "distinct (map tokId pool)" and i: "i < length pool" and u: "\<not> used (pool ! i)"
  shows "map (\<lambda>t. if tokId t = tokId (pool ! i) then t\<lparr>used := False\<rparr> else t)
           (pool[i := (pool ! i)\<lparr>used := True\<rparr>]) = pool"
proof (rule nth_equalityI)
  show "length (map (\<lambda>t. if tokId t = tokId (pool ! i) then t\<lparr>used := False\<rparr> else t)
           (pool[i := (pool ! i)\<lparr>used := True\<rparr>])) = length pool" by simp
next
  fix k
  assume "k < length (map (\<lambda>t. if tokId t = tokId (pool ! i) then t\<lparr>used := False\<rparr> else t)
           (pool[i := (pool ! i)\<lparr>used := True\<rparr>]))"
  then have k: "k < length pool" by simp
  show "map (\<lambda>t. if tokId t = tokId (pool ! i) then t\<lparr>used := False\<rparr> else t)
           (pool[i := (pool ! i)\<lparr>used := True\<rparr>]) ! k = pool ! k"
  proof (cases "k = i")
    case True
    then show ?thesis using i u by simp
  next
    case False
    have "tokId (pool ! k) \<noteq> tokId (pool ! i)"
    proof
      assume "tokId (pool ! k) = tokId (pool ! i)"
      then have "map tokId pool ! k = map tokId pool ! i" using k i by simp
      then have "k = i" using nth_eq_iff_index_eq [OF d, of k i] k i by simp
      with False show False by simp
    qed
    then show ?thesis using k False by simp
  qed
qed

text \<open>
  The pool that \<open>newRound\<close> builds for the fallback puzzle when \<open>Math.random\<close> returns 0 for
  every id and every swap: \<open>(0).toString(36).slice(2, 9)\<close> is the empty string, so the seven
  tokens share one id. \<open>genId\<close> draws the ids at random and nothing compares them.
\<close>

definition sameIdState :: state where
  "sameIdState = fallbackState initialState (fst (poolFor refHost fallbackExpr (zeroDraws)))"

lemma shuffleLoop_zero:
  "shuffleLoop (Suc k) xs (zeroDraws) = shuffleLoop k (xs[Suc k := xs ! 0, 0 := xs ! Suc k]) (zeroDraws)"
  using zeroDraw [of "Suc k"] by (simp add: mathRandom_def Let_def)

lemma freshTokens_zero:
  "freshTokens refHost ts (zeroDraws) = (map (\<lambda>t. \<lparr>tokId = [], token = t, used = False\<rparr>) ts, zeroDraws)"
  by (induction ts) (simp_all add: genId_zero)

lemma sameIdPool:
  "availableTokens sameIdState =
     [\<lparr>tokId = [], token = ''3'', used = False\<rparr>, \<lparr>tokId = [], token = ''+'', used = False\<rparr>,
      \<lparr>tokId = [], token = ''4'', used = False\<rparr>, \<lparr>tokId = [], token = '')'', used = False\<rparr>,
      \<lparr>tokId = [], token = ''*'', used = False\<rparr>, \<lparr>tokId = [], token = ''2'', used = False\<rparr>,
      \<lparr>tokId = [], token = ''('', used = False\<rparr>]"
proof -
  have "shuffleArray
     [\<lparr>tokId = [], token = ''('', used = False\<rparr>, \<lparr>tokId = [], token = ''3'', used = False\<rparr>,
      \<lparr>tokId = [], token = ''+'', used = False\<rparr>, \<lparr>tokId = [], token = ''4'', used = False\<rparr>,
      \<lparr>tokId = [], token = '')'', used = False\<rparr>, \<lparr>tokId = [], token = ''*'', used = False\<rparr>,
      \<lparr>tokId = [], token = ''2'', used = False\<rparr>] zeroDraws
   = ([\<lparr>tokId = [], token = ''3'', used = False\<rparr>, \<lparr>tokId = [], token = ''+'', used = False\<rparr>,
      \<lparr>tokId = [], token = ''4'', used = False\<rparr>, \<lparr>tokId = [], token = '')'', used = False\<rparr>,
      \<lparr>tokId = [], token = ''*'', used = False\<rparr>, \<lparr>tokId = [], token = ''2'', used = False\<rparr>,
      \<lparr>tokId = [], token = ''('', used = False\<rparr>], zeroDraws)"
    by (simp add: shuffleArray_def shuffleLoop_zero del: shuffleLoop.simps(2))
  then show ?thesis
    by (simp add: sameIdState_def fallbackState_def poolFor_def tokenize_fallback freshTokens_zero
          del: freshTokens.simps)
qed

text \<open>
  Claim C7 fails as stated on such a pool. With \<open>+\<close> placed, placing the \<open>3\<close> at index 0
  and removing the entry just appended frees every pool token, the \<open>+\<close> too, which is
  still in the equation: \<open>removeFromEquation\<close> finds the pool entries by id.
\<close>

definition sameIdPlaced :: state where
  "sameIdPlaced = perform (Place 1) sameIdState"

theorem place_then_unplace_counterexample:
  "equationTokens sameIdPlaced = [\<lparr>tokId = [], token = ''+''\<rparr>]
   \<and> filter used (availableTokens sameIdPlaced) = [\<lparr>tokId = [], token = ''+'', used = True\<rparr>]
   \<and> \<not> used (availableTokens sameIdPlaced ! 0)
   \<and> addToEquation 0 sameIdPlaced = Inr (perform (Place 0) sameIdPlaced)
   \<and> equationTokens (perform (Place 0) sameIdPlaced)
       = equationTokens sameIdPlaced @ [\<lparr>tokId = [], token = ''3''\<rparr>]
   \<and> removeFromEquation 1 (perform (Place 0) sameIdPlaced)
       = Inr (clicks [Place 0, Unplace 1] sameIdPlaced)
   \<and> equationTokens (clicks [Place 0, Unplace 1] sameIdPlaced) = equationTokens sameIdPlaced
   \<and> filter used (availableTokens (clicks [Place 0, Unplace 1] sameIdPlaced)) = []
   \<and> clicks [Place 0, Unplace 1] sameIdPlaced \<noteq> sameIdPlaced"
proof -
  have p: "availableTokens sameIdPlaced =
     [\<lparr>tokId = [], token = ''3'', used = False\<rparr>, \<lparr>tokId = [], token = ''+'', used = True\<rparr>,
      \<lparr>tokId = [], token = ''4'', used = False\<rparr>, \<lparr>tokId = [], token = '')'', used = False\<rparr>,
      \<lparr>tokId = [], token = ''*'', used = False\<rparr>, \<lparr>tokId = [], token = ''2'', used = False\<rparr>,
      \<lparr>tokId = [], token = ''('', used = False\<rparr>]"
    and e: "equationTokens sameIdPlaced = [\<lparr>tokId = [], token = ''+''\<rparr>]"
    by (simp_all add: sameIdPlaced_def addToEquation_def sameIdPool Let_def)
       (simp_all add: sameIdState_def fallbackState_def initialState_def)
  have u: "filter used (availableTokens (clicks [Place 0, Unplace 1] sameIdPlaced)) = []"
    by (simp add: clicks_def addToEquation_def removeFromEquation_def p e Let_def)
  have "filter used (availableTokens sameIdPlaced) \<noteq> []" by (simp add: p)
  with u have ne: "clicks [Place 0, Unplace 1] sameIdPlaced \<noteq> sameIdPlaced" by metis
  show ?thesis
    using u ne by (simp add: clicks_def addToEquation_def removeFromEquation_def p e Let_def)
qed

text \<open>
  Claim C7, amended. In a state whose pool ids are pairwise distinct (the data model's unique id of
  a token), placing an available pool token and then removing the entry just appended
  gives back the state: the pool with its flags, order and ids, and the equation.
\<close>

theorem place_then_unplace:
  assumes "distinct (map tokId (availableTokens st))"
    and "i < length (availableTokens st)"
    and "\<not> used (availableTokens st ! i)"
  shows "\<exists>st1. addToEquation i st = Inr st1
           \<and> equationTokens st1 = equationTokens st
                @ [\<lparr>tokId = tokId (availableTokens st ! i), token = token (availableTokens st ! i)\<rparr>]
           \<and> removeFromEquation (length (equationTokens st)) st1 = Inr st"
proof -
  let ?tk = "availableTokens st ! i"
  let ?st1 = "st\<lparr> availableTokens := (availableTokens st)[i := ?tk\<lparr>used := True\<rparr>],
                   equationTokens := equationTokens st @ [\<lparr>tokId = tokId ?tk, token = token ?tk\<rparr>] \<rparr>"
  have add: "addToEquation i st = Inr ?st1"
    using assms(2,3) by (simp add: addToEquation_def Let_def)
  have "removeFromEquation (length (equationTokens st)) ?st1 = Inr st"
    using unmark_same_id [OF assms] by (simp add: removeFromEquation_def Let_def)
  with add show ?thesis by simp
qed

theorem place_then_unplace_witness:
  "distinct (map tokId (availableTokens exampleState))
   \<and> 1 < length (availableTokens exampleState)
   \<and> \<not> used (availableTokens exampleState ! 1)
   \<and> (\<exists>st1. addToEquation 1 exampleState = Inr st1
         \<and> equationTokens st1 = [\<lparr>tokId = ''a'', token = ''+''\<rparr>, \<lparr>tokId = ''b'', token = ''4''\<rparr>]
         \<and> removeFromEquation 1 st1 = Inr exampleState)"
proof -
  have a: "distinct (map tokId (availableTokens exampleState))"
    and b: "1 < length (availableTokens exampleState)"
    and c: "\<not> used (availableTokens exampleState ! 1)"
    by (simp_all add: exampleState_def examplePool_def)
  have e: "equationTokens exampleState = [\<lparr>tokId = ''a'', token = ''+''\<rparr>]"
    and t: "availableTokens exampleState ! Suc 0 = \<lparr>tokId = ''b'', token = ''4'', used = False\<rparr>"
    by (simp_all add: exampleState_def examplePool_def)
  from place_then_unplace [OF a b c] show ?thesis using a b c by (simp add: e t)
qed


lemma mset_removeAt: "j < length xs \<Longrightarrow> mset (take j xs @ drop (Suc j) xs) = mset xs - {#xs ! j#}"
proof -
  assume j: "j < length xs"
  have "mset xs = mset (take j xs @ xs ! j # drop (Suc j) xs)" using id_take_nth_drop [OF j] by simp
  then show ?thesis by simp
qed

lemma conserved_add:
  assumes inv: "conserved st" and res: "addToEquation i st = Inr st'"
  shows "conserved st'"
proof (cases "used (availableTokens st ! i)")
  case True
  then show ?thesis using inv res by (auto simp: addToEquation_def Let_def split: if_splits)
next
  case False
  let ?pool = "availableTokens st"
  let ?tk = "?pool ! i"
  have i: "i < length ?pool" using res by (auto simp: addToEquation_def split: if_splits)
  have st': "st' = st\<lparr> availableTokens := ?pool[i := ?tk\<lparr>used := True\<rparr>],
                          equationTokens := equationTokens st @ [\<lparr>tokId = tokId ?tk, token = token ?tk\<rparr>] \<rparr>"
    using res i False by (simp add: addToEquation_def Let_def)
  have ids: "map tokId (?pool[i := ?tk\<lparr>used := True\<rparr>]) = map tokId ?pool"
    and txs: "map token (?pool[i := ?tk\<lparr>used := True\<rparr>]) = map token ?pool"
    using i by (simp_all add: map_update list_update_same_conv)
  have "filter_mset used (mset (?pool[i := ?tk\<lparr>used := True\<rparr>]))
        = add_mset (?tk\<lparr>used := True\<rparr>) (filter_mset used (mset ?pool))"
    using i False by (simp add: mset_update filter_diff_mset)
  then have "image_mset refOf (filter_mset used (mset (?pool[i := ?tk\<lparr>used := True\<rparr>])))
        = add_mset \<lparr>tokId = tokId ?tk, token = token ?tk\<rparr> (image_mset refOf (filter_mset used (mset ?pool)))"
    by (simp add: refOf_def)
  then show ?thesis using inv ids txs unfolding conserved_def st' by simp
qed

lemma conserved_remove:
  assumes inv: "conserved st" and res: "removeFromEquation j st = Inr st'"
  shows "conserved st'"
proof (cases "j < length (equationTokens st)")
  case False
  then show ?thesis using inv res by (auto simp: removeFromEquation_def split: if_splits)
next
  case True
  let ?pool = "availableTokens st"
  let ?eq = "equationTokens st"
  let ?removed = "?eq ! j"
  let ?g = "\<lambda>t. if tokId t = tokId ?removed then t\<lparr>used := False\<rparr> else t"
  have st': "st' = st\<lparr> equationTokens := take j ?eq @ drop (Suc j) ?eq,
                          availableTokens := map ?g ?pool \<rparr>"
    using res True by (simp add: removeFromEquation_def Let_def)
  from inv have d: "distinct (map tokId ?pool)"
    and e: "mset ?eq = image_mset refOf (filter_mset used (mset ?pool))"
    and x: "mset (map token ?pool) = mset (originalTokens st)"
    by (simp_all add: conserved_def)
  have "?removed \<in># mset ?eq" using True by simp
  then obtain t0 where t0: "t0 \<in># mset ?pool" "used t0" "refOf t0 = ?removed"
    unfolding e by auto
  then obtain M where M: "mset ?pool = add_mset t0 M" by (meson multi_member_split)
  have idr: "tokId ?removed = tokId t0" using arg_cong [OF t0(3), of tokId] by (simp add: refOf_def)
  have "count (mset (map tokId ?pool)) (tokId t0) \<le> 1"
    using d by (simp add: distinct_count_atmost_1)
  moreover have "mset (map tokId ?pool) = add_mset (tokId t0) (image_mset tokId M)"
    using M by (simp only: mset_map image_mset_add_mset)
  ultimately have "count (image_mset tokId M) (tokId t0) = 0" by simp
  then have notin: "tokId t0 \<notin># image_mset tokId M" by (simp only: not_in_iff)
  have gM: "image_mset ?g M = M"
  proof -
    have "image_mset ?g M = image_mset (\<lambda>t. t) M"
    proof (rule image_mset_cong)
      fix t assume "t \<in># M"
      then have "tokId t \<in># image_mset tokId M" by simp
      then have "tokId t \<noteq> tokId t0" using notin by metis
      then show "?g t = t" by (simp add: idr)
    qed
    then show ?thesis by simp
  qed
  have pool': "image_mset ?g (mset ?pool) = add_mset (t0\<lparr>used := False\<rparr>) M"
    using gM by (simp add: M idr)
  have "filter_mset used (image_mset ?g (mset ?pool)) = filter_mset used M"
    by (simp only: pool') simp
  then have f': "filter_mset used (mset (map ?g ?pool)) = filter_mset used M"
    by (simp only: mset_map)
  have f: "filter_mset used (mset ?pool) = add_mset t0 (filter_mset used M)" using t0(2) by (simp add: M)
  have "mset (take j ?eq @ drop (Suc j) ?eq) = mset ?eq - {#?removed#}"
    using True by (rule mset_removeAt)
  also have "\<dots> = add_mset (refOf t0) (image_mset refOf (filter_mset used M)) - {#refOf t0#}"
    by (simp only: e f t0(3) image_mset_add_mset)
  finally have eq': "mset (take j ?eq @ drop (Suc j) ?eq) = image_mset refOf (filter_mset used M)"
    by simp
  have c1: "tokId \<circ> ?g = tokId" and c2: "token \<circ> ?g = token" by (auto simp: fun_eq_iff)
  have "distinct (map tokId (map ?g ?pool))" using d by (simp only: map_map c1)
  moreover have "mset (map token (map ?g ?pool)) = mset (originalTokens st)"
    using x by (simp only: map_map c2)
  ultimately show ?thesis using eq' f' by (simp add: conserved_def st')
qed

lemma conserved_reset: "conserved st \<Longrightarrow> conserved (resetEquation st)"
proof -
  assume inv: "conserved st"
  have "filter_mset used (mset (map (\<lambda>t. t\<lparr>used := False\<rparr>) (availableTokens st))) = {#}"
    by auto
  then show ?thesis using inv by (simp add: conserved_def resetEquation_def comp_def)
qed

lemma conserved_perform: "conserved st \<Longrightarrow> conserved (perform c st)"
  by (cases c) (auto split: sum.splits intro: conserved_add conserved_remove conserved_reset)

lemma conserved_clicks: "conserved st \<Longrightarrow> conserved (clicks cs st)"
  unfolding clicks_def by (induction cs arbitrary: st) (simp_all add: conserved_perform)

lemma originalTokens_perform: "originalTokens (perform c st) = originalTokens st"
  by (cases c)
    (auto simp: addToEquation_def removeFromEquation_def resetEquation_def Let_def
          split: sum.splits if_splits)

lemma originalTokens_clicks: "originalTokens (clicks cs st) = originalTokens st"
  unfolding clicks_def by (induction cs arbitrary: st) (simp_all add: originalTokens_perform)

lemma conserved_counts:
  assumes "conserved st"
  shows "length (equationTokens st) = length (filter used (availableTokens st))"
    and "mset (map token (filter (\<lambda>t. \<not> used t) (availableTokens st))) + mset (map token (equationTokens st))
         = mset (originalTokens st)"
proof -
  let ?pool = "availableTokens st"
  from assms have e: "mset (equationTokens st) = image_mset refOf (filter_mset used (mset ?pool))"
    and x: "mset (map token ?pool) = mset (originalTokens st)"
    by (simp_all add: conserved_def)
  have "size (mset (equationTokens st)) = size (filter_mset used (mset ?pool))" by (simp add: e)
  then show "length (equationTokens st) = length (filter used ?pool)"
    by (metis mset_filter size_mset)
  have "mset (map token (equationTokens st)) = image_mset token (mset (equationTokens st))" by simp
  also have "\<dots> = image_mset token (filter_mset used (mset ?pool))"
    by (simp add: e image_mset.compositionality comp_def refOf_def)
  finally have t: "mset (map token (equationTokens st)) = image_mset token (filter_mset used (mset ?pool))" .
  have u: "mset (map token (filter (\<lambda>t. \<not> used t) ?pool))
      = image_mset token (filter_mset (\<lambda>t. \<not> used t) (mset ?pool))" by simp
  have "image_mset token (mset ?pool)
      = image_mset token (filter_mset used (mset ?pool) + filter_mset (\<lambda>t. \<not> used t) (mset ?pool))"
    using multiset_partition [of "mset ?pool" used] by simp
  also have "\<dots> = mset (map token (equationTokens st)) + mset (map token (filter (\<lambda>t. \<not> used t) ?pool))"
    by (simp only: image_mset_union t u)
  finally have "mset (map token (filter (\<lambda>t. \<not> used t) ?pool)) + mset (map token (equationTokens st))
      = image_mset token (mset ?pool)" by (simp only: add.commute)
  then show "mset (map token (filter (\<lambda>t. \<not> used t) ?pool)) + mset (map token (equationTokens st))
         = mset (originalTokens st)" using x by simp
qed

text \<open>
  Claim C4 fails as stated on the pool of equal ids, which is freshly built: after placing
  the tokens at 0 and 1 and removing the first entry, one entry is left in the equation
  and no pool token is marked used.
\<close>

theorem clicks_conserve_tokens_counterexample:
  "equationTokens sameIdState = []
   \<and> filter used (availableTokens sameIdState) = []
   \<and> mset (map token (availableTokens sameIdState)) = mset (originalTokens sameIdState)
   \<and> length (equationTokens (clicks [Place 0, Place 1, Unplace 0] sameIdState)) = 1
   \<and> length (filter used (availableTokens (clicks [Place 0, Place 1, Unplace 0] sameIdState))) = 0"
  by (simp add: clicks_def addToEquation_def removeFromEquation_def sameIdPool Let_def)
     (simp add: sameIdState_def fallbackState_def initialState_def tokenize_fallback)

text \<open>
  Claim C4, amended. Start from a freshly built pool: the puzzle's tokens in some order, none used,
  their ids pairwise distinct (the data model's unique id), and an empty equation. After
  every sequence of clicks on pool tokens, equation entries and the reset button, the
  equation is as long as the number of used pool tokens, and the texts of the unused pool
  tokens together with the texts in the equation are the puzzle's tokens, as multisets.
\<close>

theorem clicks_conserve_tokens:
  assumes "equationTokens st = []"
    and "\<forall>t \<in> set (availableTokens st). \<not> used t"
    and "mset (map token (availableTokens st)) = mset (originalTokens st)"
    and "distinct (map tokId (availableTokens st))"
  shows "length (equationTokens (clicks cs st)) = length (filter used (availableTokens (clicks cs st)))
       \<and> mset (map token (filter (\<lambda>t. \<not> used t) (availableTokens (clicks cs st))))
           + mset (map token (equationTokens (clicks cs st)))
         = mset (originalTokens st)"
proof -
  have "filter_mset used (mset (availableTokens st)) = {#}"
    using assms(2) by simp
  then have "conserved st" using assms by (simp add: conserved_def)
  then have "conserved (clicks cs st)" by (rule conserved_clicks)
  from conserved_counts [OF this] show ?thesis by (simp add: originalTokens_clicks)
qed


theorem clicks_conserve_tokens_witness:
  "equationTokens freshExample = []
   \<and> filter used (availableTokens freshExample) = []
   \<and> mset (map token (availableTokens freshExample)) = mset (originalTokens freshExample)
   \<and> distinct (map tokId (availableTokens freshExample))
   \<and> equationTokens (clicks [Place 0, Place 2, Unplace 0, Place 5] freshExample)
       = [\<lparr>tokId = ''c'', token = ''3''\<rparr>]
   \<and> length (equationTokens (clicks [Place 0, Place 2, Unplace 0, Place 5] freshExample))
       = length (filter used (availableTokens (clicks [Place 0, Place 2, Unplace 0, Place 5] freshExample)))
   \<and> mset (map token (filter (\<lambda>t. \<not> used t)
              (availableTokens (clicks [Place 0, Place 2, Unplace 0, Place 5] freshExample))))
         + mset (map token (equationTokens (clicks [Place 0, Place 2, Unplace 0, Place 5] freshExample)))
       = mset [''3'', ''+'', ''4'']"
proof -
  have a: "equationTokens freshExample = []"
    and b: "\<forall>t \<in> set (availableTokens freshExample). \<not> used t"
    and c: "mset (map token (availableTokens freshExample)) = mset (originalTokens freshExample)"
    and d: "distinct (map tokId (availableTokens freshExample))"
    and o: "originalTokens freshExample = [''3'', ''+'', ''4'']"
    by (simp_all add: freshExample_def initialState_def)
  have e: "equationTokens (clicks [Place 0, Place 2, Unplace 0, Place 5] freshExample)
       = [\<lparr>tokId = ''c'', token = ''3''\<rparr>]"
    by (simp add: clicks_def addToEquation_def removeFromEquation_def freshExample_def
          initialState_def Let_def)
  have f: "filter used (availableTokens freshExample) = []" using b by (simp add: filter_empty_conv)
  from clicks_conserve_tokens [OF a b c d, of "[Place 0, Place 2, Unplace 0, Place 5]"]
  show ?thesis using a c d e f by (simp only: o simp_thms)
qed

end
